theory Spec2Isabelle
  imports Complex_Main
begin

section \<open>JavaScript objects used as dictionaries\<close>

text \<open>
  The detection module keeps its maps (\<open>graph\<close>, \<open>velocityMap\<close>, \<open>fanIn\<close>, \<open>fanOut\<close>) in
  object literals \<open>{}\<close>. Such an object holds its own properties in creation order and
  inherits from \<open>Object.prototype\<close>: reading a key that is not an own property yields the
  inherited member when the key names one, and \<open>undefined\<close> otherwise. An object is
  modelled by the association list of its own properties, in creation order.
\<close>

type_synonym 'v jsobj = "(string \<times> 'v) list"

text \<open>The property names of \<open>Object.prototype\<close>. Every one of them reads as a truthy
  value: eleven functions, and \<open>__proto__\<close>, whose getter returns \<open>Object.prototype\<close>.\<close>

definition object_prototype_keys :: "string list" where
  "object_prototype_keys =
     [''constructor'', ''__defineGetter__'', ''__defineSetter__'', ''hasOwnProperty'',
      ''__lookupGetter__'', ''__lookupSetter__'', ''isPrototypeOf'',
      ''propertyIsEnumerable'', ''toString'', ''valueOf'', ''__proto__'',
      ''toLocaleString'']"

datatype 'v property = Own 'v | Inherited | Undefined

text \<open>\<open>obj[k]\<close> as an expression.\<close>

definition get_prop :: "'v jsobj \<Rightarrow> string \<Rightarrow> 'v property" where
  "get_prop obj k =
     (case map_of obj k of
        Some v \<Rightarrow> Own v
      | None \<Rightarrow> if k \<in> set object_prototype_keys then Inherited else Undefined)"

text \<open>\<open>obj[k] = v\<close> creating or overwriting an own data property: an existing property
  keeps its place, a new one goes last.\<close>

fun set_prop :: "'v jsobj \<Rightarrow> string \<Rightarrow> 'v \<Rightarrow> 'v jsobj" where
  "set_prop [] k v = [(k, v)]"
| "set_prop ((k', v') # ps) k v =
     (if k' = k then (k, v) # ps else (k', v') # set_prop ps k v)"

subsection \<open>Property enumeration order\<close>

text \<open>\<open>for (let node in graph)\<close> visits the own keys that are array indices (canonical
  decimal strings below \<open>2^32 - 1\<close>) first, in ascending numeric order, and then the other
  keys in creation order. The members of \<open>Object.prototype\<close> are not enumerable.\<close>

definition is_digit :: "char \<Rightarrow> bool" where
  "is_digit c = (48 \<le> (of_char c :: int) \<and> (of_char c :: int) \<le> 57)"

definition int_of_digits :: "string \<Rightarrow> int" where
  "int_of_digits s = foldl (\<lambda>n c. 10 * n + (of_char c - 48)) 0 s"

definition is_array_index :: "string \<Rightarrow> bool" where
  "is_array_index k =
     (k \<noteq> [] \<and> list_all is_digit k \<and> (k = ''0'' \<or> hd k \<noteq> CHR ''0'')
      \<and> int_of_digits k < 4294967295)"

definition own_keys :: "'v jsobj \<Rightarrow> string list" where
  "own_keys obj =
     sort_key int_of_digits (filter is_array_index (map fst obj))
     @ filter (\<lambda>k. \<not> is_array_index k) (map fst obj)"

subsection \<open>Counters\<close>

text \<open>The value stored by \<open>m[k] = (m[k] || 0) + 1\<close> is a number, except when \<open>k\<close> names a
  function inherited from \<open>Object.prototype\<close>: then \<open>m[k] || 0\<close> is that function and
  \<open>+ 1\<close> concatenates its source text with \<open>"1"\<close>. \<open>NativeText k i\<close> stands for the source
  text of the inherited function \<open>k\<close> followed by \<open>i\<close> characters \<open>1\<close>. For the key
  \<open>__proto__\<close> the assignment of a string reaches the inherited setter, which ignores
  it.\<close>

datatype count = Num int | NativeText string nat

definition incr :: "count jsobj \<Rightarrow> string \<Rightarrow> count jsobj" where
  "incr m k =
     (case get_prop m k of
        Own (Num n) \<Rightarrow> set_prop m k (Num ((if n = 0 then 0 else n) + 1))
      | Own (NativeText f i) \<Rightarrow> set_prop m k (NativeText f (i + 1))
      | Undefined \<Rightarrow> set_prop m k (Num (0 + 1))
      | Inherited \<Rightarrow> if k = ''__proto__'' then m else set_prop m k (NativeText k 1))"

text \<open>\<open>m[k] >= n\<close>: \<open>undefined\<close>, an inherited function and the text of one all convert
  to \<open>NaN\<close>, and every comparison with \<open>NaN\<close> is false.\<close>

fun js_ge :: "count property \<Rightarrow> int \<Rightarrow> bool" where
  "js_ge (Own (Num c)) n = (c \<ge> n)"
| "js_ge (Own (NativeText f i)) n = False"
| "js_ge Inherited n = False"
| "js_ge Undefined n = False"

section \<open>Data model\<close>

datatype error = TypeError

record transaction =
  sender_id :: string
  receiver_id :: string

record ring =
  ring_id :: string
  member_accounts :: "string list"
  pattern_type :: string
  risk_score :: int

record suspicion =
  suspicion_score :: int
  detected_patterns :: "string list"
  ring_id :: string

record suspicious_account =
  account_id :: string
  suspicion_score :: int
  detected_patterns :: "string list"
  ring_id :: string

type_synonym graph = "string list jsobj"

section \<open>Graph building\<close>

record built =
  graph :: graph
  velocityMap :: "count jsobj"

text \<open>One round of the \<open>forEach\<close> in \<open>buildGraph\<close>. When the sender names a member of
  \<open>Object.prototype\<close>, \<open>graph[tx.sender_id]\<close> is truthy, no array is created, and the call
  of \<open>push\<close> on the inherited member throws.\<close>

definition buildGraph_step :: "built \<Rightarrow> transaction \<Rightarrow> error + built" where
  "buildGraph_step b tx =
     (case get_prop (graph b) (sender_id tx) of
        Inherited \<Rightarrow> Inl TypeError
      | Undefined \<Rightarrow>
          Inr \<lparr>graph = set_prop (graph b) (sender_id tx) ([] @ [receiver_id tx]),
               velocityMap = incr (velocityMap b) (sender_id tx)\<rparr>
      | Own rs \<Rightarrow>
          Inr \<lparr>graph = set_prop (graph b) (sender_id tx) (rs @ [receiver_id tx]),
               velocityMap = incr (velocityMap b) (sender_id tx)\<rparr>)"

fun buildGraph_loop :: "built \<Rightarrow> transaction list \<Rightarrow> error + built" where
  "buildGraph_loop b [] = Inr b"
| "buildGraph_loop b (tx # txs) =
     (case buildGraph_step b tx of
        Inl e \<Rightarrow> Inl e
      | Inr b' \<Rightarrow> buildGraph_loop b' txs)"

definition buildGraph :: "transaction list \<Rightarrow> error + built" where
  "buildGraph transactions = buildGraph_loop \<lparr>graph = [], velocityMap = []\<rparr> transactions"

section \<open>Cycle detection\<close>

definition digit_char :: "nat \<Rightarrow> char" where
  "digit_char n = ''0123456789'' ! n"

text \<open>\<open>String(n)\<close> for a non-negative integer.\<close>

fun string_of_nat :: "nat \<Rightarrow> string" where
  "string_of_nat n =
     (if n < 10 then [digit_char n]
      else string_of_nat (n div 10) @ [digit_char (n mod 10)])"

definition padStart :: "nat \<Rightarrow> char \<Rightarrow> string \<Rightarrow> string" where
  "padStart w c s = replicate (w - length s) c @ s"

definition mk_ring_id :: "nat \<Rightarrow> string" where
  "mk_ring_id n = ''RING_'' @ padStart 3 (CHR ''0'') (string_of_nat n)"

text \<open>The two variables \<open>detectCycles\<close> closes over.\<close>

record detector =
  rings :: "ring list"
  ringCount :: nat

definition push_ring :: "detector \<Rightarrow> string list \<Rightarrow> detector" where
  "push_ring d path =
     \<lparr>rings = rings d @
        [\<lparr>ring.ring_id = mk_ring_id (ringCount d), member_accounts = path,
          pattern_type = ''cycle'', risk_score = 90 + int (length path)\<rparr>],
      ringCount = ringCount d + 1\<rparr>"

text \<open>\<open>dfs\<close>, and the \<open>for ... of\<close> loop over the neighbours of \<open>current\<close> inside it. When
  \<open>current\<close> is not an own key of the graph but names a member of \<open>Object.prototype\<close>,
  \<open>graph[current]\<close> is truthy and not iterable, and the loop throws.\<close>

function dfs :: "graph \<Rightarrow> string \<Rightarrow> string \<Rightarrow> string list \<Rightarrow> nat \<Rightarrow> detector
                 \<Rightarrow> error + detector"
  and dfs_neighbors :: "graph \<Rightarrow> string \<Rightarrow> string list \<Rightarrow> nat \<Rightarrow> string list \<Rightarrow> detector
                 \<Rightarrow> error + detector"
where
  "dfs g start current path depth d =
     (if depth > 6 then Inr d
      else case get_prop g current of
          Undefined \<Rightarrow> Inr d
        | Inherited \<Rightarrow> Inl TypeError
        | Own ns \<Rightarrow> dfs_neighbors g start path depth ns d)"
| "dfs_neighbors g start path depth [] d = Inr d"
| "dfs_neighbors g start path depth (neighbor # ns) d =
     (let d1 = (if neighbor = start \<and> length path \<ge> 3 then push_ring d path else d)
      in if neighbor \<notin> set path
         then (case dfs g start neighbor (path @ [neighbor]) (depth + 1) d1 of
                 Inl e \<Rightarrow> Inl e
               | Inr d2 \<Rightarrow> dfs_neighbors g start path depth ns d2)
         else dfs_neighbors g start path depth ns d1)"
  by pat_completeness auto
termination
  by (relation "inv_image (less_than <*lex*> less_than)
        (\<lambda>x. case x of
           Inl (g, start, current, path, depth, d) \<Rightarrow> (2 * (8 - depth), 0)
         | Inr (g, start, path, depth, ns, d) \<Rightarrow> (2 * (7 - depth) + 1, length ns))")
     auto

fun detectCycles_loop :: "graph \<Rightarrow> string list \<Rightarrow> detector \<Rightarrow> error + detector" where
  "detectCycles_loop g [] d = Inr d"
| "detectCycles_loop g (node # nodes) d =
     (case dfs g node node [node] 0 d of
        Inl e \<Rightarrow> Inl e
      | Inr d' \<Rightarrow> detectCycles_loop g nodes d')"

definition detectCycles :: "graph \<Rightarrow> error + ring list" where
  "detectCycles g =
     (case detectCycles_loop g (own_keys g) \<lparr>rings = [], ringCount = 1\<rparr> of
        Inl e \<Rightarrow> Inl e
      | Inr d \<Rightarrow> Inr (rings d))"

section \<open>Fan-in and fan-out\<close>

record fans =
  fanIn :: "count jsobj"
  fanOut :: "count jsobj"

definition detectFanPatterns_step :: "fans \<Rightarrow> transaction \<Rightarrow> fans" where
  "detectFanPatterns_step f tx =
     \<lparr>fanIn = incr (fanIn f) (receiver_id tx), fanOut = incr (fanOut f) (sender_id tx)\<rparr>"

definition detectFanPatterns :: "transaction list \<Rightarrow> fans" where
  "detectFanPatterns transactions =
     foldl detectFanPatterns_step \<lparr>fanIn = [], fanOut = []\<rparr> transactions"

section \<open>Suspicion engine\<close>

text \<open>\<open>ringId || "N/A"\<close>: \<open>null\<close> and the empty string are falsy.\<close>

definition calculateSuspicion ::
  "string \<Rightarrow> ring list \<Rightarrow> count jsobj \<Rightarrow> count jsobj \<Rightarrow> count jsobj \<Rightarrow> suspicion option" where
  "calculateSuspicion account rings' fanIn' fanOut' velocityMap' =
     (let score0 = (0 :: int);
          patterns0 = ([] :: string list);
          ring = find (\<lambda>r. account \<in> set (member_accounts r)) rings';
          (score1, patterns1, ringId) =
            (case ring of
               Some r \<Rightarrow> (score0 + 50, patterns0 @ [''cycle_network''], Some (ring.ring_id r))
             | None \<Rightarrow> (score0, patterns0, None));
          (score2, patterns2) =
            (if js_ge (get_prop fanIn' account) 5
             then (score1 + 20, patterns1 @ [''high_fan_in'']) else (score1, patterns1));
          (score3, patterns3) =
            (if js_ge (get_prop fanOut' account) 5
             then (score2 + 20, patterns2 @ [''high_fan_out'']) else (score2, patterns2));
          (score4, patterns4) =
            (if js_ge (get_prop velocityMap' account) 10
             then (score3 + 10, patterns3 @ [''high_velocity'']) else (score3, patterns3));
          score = min 100 score4
      in if score = 0 then None
         else Some \<lparr>suspicion.suspicion_score = score,
                    suspicion.detected_patterns = patterns4,
                    suspicion.ring_id =
                      (case ringId of
                         None \<Rightarrow> ''N/A''
                       | Some i \<Rightarrow> if i = [] then ''N/A'' else i)\<rparr>)"

section \<open>The analysis in the request handler\<close>

text \<open>\<open>accounts\<close> is a \<open>Set\<close>: it keeps its elements in insertion order, and adding an
  element it already has changes nothing.\<close>

definition set_add :: "string list \<Rightarrow> string \<Rightarrow> string list" where
  "set_add s x = (if x \<in> set s then s else s @ [x])"

definition collect_accounts :: "transaction list \<Rightarrow> string list" where
  "collect_accounts transactions =
     foldl (\<lambda>accounts tx. set_add (set_add accounts (sender_id tx)) (receiver_id tx))
       [] transactions"

text \<open>The \<open>accounts.forEach\<close> that fills \<open>suspicious_accounts\<close>.\<close>

fun score_accounts ::
  "string list \<Rightarrow> ring list \<Rightarrow> count jsobj \<Rightarrow> count jsobj \<Rightarrow> count jsobj
   \<Rightarrow> suspicious_account list" where
  "score_accounts [] rings' fanIn' fanOut' velocityMap' = []"
| "score_accounts (acc # accs) rings' fanIn' fanOut' velocityMap' =
     (case calculateSuspicion acc rings' fanIn' fanOut' velocityMap' of
        None \<Rightarrow> score_accounts accs rings' fanIn' fanOut' velocityMap'
      | Some result \<Rightarrow>
          \<lparr>account_id = acc,
           suspicion_score = suspicion.suspicion_score result,
           detected_patterns = suspicion.detected_patterns result,
           ring_id = suspicion.ring_id result\<rparr>
          # score_accounts accs rings' fanIn' fanOut' velocityMap')"

text \<open>\<open>Array.prototype.sort\<close> with a comparator is a stable sort: an element goes
  before another exactly when the comparator orders them so, or leaves them equal and the
  element came first. It is modelled by insertion sort.\<close>

definition compare_score :: "suspicious_account \<Rightarrow> suspicious_account \<Rightarrow> int" where
  "compare_score a b = suspicion_score b - suspicion_score a"

fun insert_by :: "('a \<Rightarrow> 'a \<Rightarrow> int) \<Rightarrow> 'a \<Rightarrow> 'a list \<Rightarrow> 'a list" where
  "insert_by cmp x [] = [x]"
| "insert_by cmp x (y # ys) =
     (if cmp x y \<le> 0 then x # y # ys else y # insert_by cmp x ys)"

fun array_sort :: "('a \<Rightarrow> 'a \<Rightarrow> int) \<Rightarrow> 'a list \<Rightarrow> 'a list" where
  "array_sort cmp [] = []"
| "array_sort cmp (x # xs) = insert_by cmp x (array_sort cmp xs)"

record summary =
  total_accounts_analyzed :: nat
  suspicious_accounts_flagged :: nat
  fraud_rings_detected :: nat
  processing_time_seconds :: real

record report =
  suspicious_accounts :: "suspicious_account list"
  fraud_rings :: "ring list"
  summary :: summary

text \<open>The detection section of the handler, from \<open>buildGraph\<close> to the sort, with the
  account set it iterates.\<close>

record detection =
  found_accounts :: "suspicious_account list"
  found_rings :: "ring list"
  account_set :: "string list"

definition engine :: "transaction list \<Rightarrow> error + detection" where
  "engine transactions =
     (case buildGraph transactions of
        Inl e \<Rightarrow> Inl e
      | Inr b \<Rightarrow>
          (case detectCycles (graph b) of
             Inl e \<Rightarrow> Inl e
           | Inr rings' \<Rightarrow>
               (let f = detectFanPatterns transactions;
                    accounts' = collect_accounts transactions
                in Inr \<lparr>found_accounts =
                          array_sort compare_score
                            (score_accounts accounts' rings' (fanIn f) (fanOut f) (velocityMap b)),
                        found_rings = rings',
                        account_set = accounts'\<rparr>)))"

datatype response = Ok report | Status400 string | Status500 string

text \<open>The handler from the parsed transactions on: \<open>startTime\<close> and \<open>now\<close> are the two
  readings of \<open>Date.now()\<close>. An exception of the detection section is caught and answered
  with status 500.\<close>

definition analyze :: "int \<Rightarrow> int \<Rightarrow> transaction list \<Rightarrow> response" where
  "analyze startTime now transactions =
     (if length transactions = 0 then Status400 ''No valid transactions found.''
      else case engine transactions of
          Inl e \<Rightarrow> Status500 ''Analysis failed. Check CSV format.''
        | Inr d \<Rightarrow>
            Ok \<lparr>suspicious_accounts = found_accounts d,
                fraud_rings = found_rings d,
                summary =
                  \<lparr>total_accounts_analyzed = length (account_set d),
                   suspicious_accounts_flagged = length (found_accounts d),
                   fraud_rings_detected = length (found_rings d),
                   processing_time_seconds = real_of_int (now - startTime) / 1000\<rparr>\<rparr>)"

section \<open>Definitions the claims are measured against\<close>

text \<open>\<open>calculateSuspicion\<close> with the statement \<open>score = Math.min(100, score)\<close> left out.\<close>

definition calculateSuspicion_unclamped ::
  "string \<Rightarrow> ring list \<Rightarrow> count jsobj \<Rightarrow> count jsobj \<Rightarrow> count jsobj \<Rightarrow> suspicion option" where
  "calculateSuspicion_unclamped account rings' fanIn' fanOut' velocityMap' =
     (let score0 = (0 :: int);
          patterns0 = ([] :: string list);
          ring = find (\<lambda>r. account \<in> set (member_accounts r)) rings';
          (score1, patterns1, ringId) =
            (case ring of
               Some r \<Rightarrow> (score0 + 50, patterns0 @ [''cycle_network''], Some (ring.ring_id r))
             | None \<Rightarrow> (score0, patterns0, None));
          (score2, patterns2) =
            (if js_ge (get_prop fanIn' account) 5
             then (score1 + 20, patterns1 @ [''high_fan_in'']) else (score1, patterns1));
          (score3, patterns3) =
            (if js_ge (get_prop fanOut' account) 5
             then (score2 + 20, patterns2 @ [''high_fan_out'']) else (score2, patterns2));
          (score4, patterns4) =
            (if js_ge (get_prop velocityMap' account) 10
             then (score3 + 10, patterns3 @ [''high_velocity'']) else (score3, patterns3));
          score = score4
      in if score = 0 then None
         else Some \<lparr>suspicion.suspicion_score = score,
                    suspicion.detected_patterns = patterns4,
                    suspicion.ring_id =
                      (case ringId of
                         None \<Rightarrow> ''N/A''
                       | Some i \<Rightarrow> if i = [] then ''N/A'' else i)\<rparr>)"

text \<open>The scoring rule as the specification words it: four independent signals, each
  with its points and its label, the sum clamped to 100, no result for the sum 0, and the
  id of the first ring, in list order, that has the account among its members.\<close>

definition calculateSuspicion_spec ::
  "string \<Rightarrow> ring list \<Rightarrow> count jsobj \<Rightarrow> count jsobj \<Rightarrow> count jsobj \<Rightarrow> suspicion option" where
  "calculateSuspicion_spec account rings' fanIn' fanOut' velocityMap' =
     (let in_ring = list_ex (\<lambda>r. account \<in> set (member_accounts r)) rings';
          high_in = js_ge (get_prop fanIn' account) 5;
          high_out = js_ge (get_prop fanOut' account) 5;
          high_vel = js_ge (get_prop velocityMap' account) 10;
          total = (if in_ring then 50 else 0) + (if high_in then 20 else 0)
                + (if high_out then 20 else 0) + (if high_vel then 10 else (0 :: int))
      in if total = 0 then None
         else Some \<lparr>suspicion.suspicion_score = min 100 total,
                    suspicion.detected_patterns =
                      (if in_ring then [''cycle_network''] else [])
                      @ (if high_in then [''high_fan_in''] else [])
                      @ (if high_out then [''high_fan_out''] else [])
                      @ (if high_vel then [''high_velocity''] else []),
                    suspicion.ring_id =
                      (case filter (\<lambda>r. account \<in> set (member_accounts r)) rings' of
                         [] \<Rightarrow> ''N/A''
                       | r # _ \<Rightarrow> ring.ring_id r)\<rparr>)"

text \<open>Objects none of whose own keys names a member of \<open>Object.prototype\<close>.\<close>

definition plain_keys :: "'v jsobj \<Rightarrow> bool" where
  "plain_keys obj = list_all (\<lambda>k. k \<notin> set object_prototype_keys) (map fst obj)"

text \<open>A counter object that holds exactly the positive values of the function \<open>c\<close>.\<close>

definition counts :: "count jsobj \<Rightarrow> (string \<Rightarrow> nat) \<Rightarrow> bool" where
  "counts m c = (\<forall>a. map_of m a = (if c a = 0 then None else Some (Num (int (c a)))))"

text \<open>The rings pushed for a sequence of paths, the counter standing at \<open>n\<close>.\<close>

fun number_rings :: "nat \<Rightarrow> string list list \<Rightarrow> ring list" where
  "number_rings n [] = []"
| "number_rings n (p # ps) =
     \<lparr>ring.ring_id = mk_ring_id n, member_accounts = p, pattern_type = ''cycle'',
      risk_score = 90 + int (length p)\<rparr> # number_rings (n + 1) ps"

definition recorded_path :: "string list \<Rightarrow> bool" where
  "recorded_path p = (distinct p \<and> 3 \<le> length p \<and> length p \<le> 7)"

text \<open>\<open>pushes d d'\<close>: the detector \<open>d'\<close> is \<open>d\<close> after some pushes of such paths.\<close>

definition pushes :: "detector \<Rightarrow> detector \<Rightarrow> bool" where
  "pushes d d' = (\<exists>ps. d' = foldl push_ring d ps \<and> list_all recorded_path ps)"

text \<open>Graphs in which no neighbour reads as an inherited member.\<close>

definition safe_graph :: "graph \<Rightarrow> bool" where
  "safe_graph g = list_all (\<lambda>ns. list_all (\<lambda>n. get_prop g n \<noteq> Inherited) ns) (map snd g)"

text \<open>The cycle \<open>a, b, c\<close> read from the node \<open>s\<close>.\<close>

definition cycle_from :: "string \<Rightarrow> string \<Rightarrow> string \<Rightarrow> string \<Rightarrow> string list" where
  "cycle_from a b c s = (if s = a then [a, b, c] else if s = b then [b, c, a] else [c, a, b])"

section \<open>The store of the process\<close>

text \<open>Every call of \<open>detectCycles\<close> creates its two closure variables, the array \<open>rings\<close>
  and the number \<open>ringCount\<close>; what a call has created stays in the memory of the process,
  which serves one request after another. The store holds the arrays and the number
  variables created so far; a new one goes last, and its address is its index.\<close>

record store =
  arrays :: "ring list list"
  counters :: "nat list"

text \<open>\<open>rings.push(...)\<close> with \<open>ringCount++\<close>, on the array at address \<open>ra\<close> and the number
  at address \<open>ca\<close>.\<close>

definition push_ring_store :: "nat \<Rightarrow> nat \<Rightarrow> store \<Rightarrow> string list \<Rightarrow> store" where
  "push_ring_store ra ca s path =
     \<lparr>arrays = (arrays s)
        [ra := arrays s ! ra @
           [\<lparr>ring.ring_id = mk_ring_id (counters s ! ca), member_accounts = path,
             pattern_type = ''cycle'', risk_score = 90 + int (length path)\<rparr>]],
      counters = (counters s)[ca := counters s ! ca + 1]\<rparr>"

text \<open>\<open>dfs\<close> and its loop, writing to the store; a thrown error leaves the store as it
  stands.\<close>

function dfs_store :: "graph \<Rightarrow> nat \<Rightarrow> nat \<Rightarrow> string \<Rightarrow> string \<Rightarrow> string list \<Rightarrow> nat \<Rightarrow> store
                 \<Rightarrow> error option \<times> store"
  and dfs_neighbors_store :: "graph \<Rightarrow> nat \<Rightarrow> nat \<Rightarrow> string \<Rightarrow> string list \<Rightarrow> nat \<Rightarrow> string list
                 \<Rightarrow> store \<Rightarrow> error option \<times> store"
where
  "dfs_store g ra ca start current path depth s =
     (if depth > 6 then (None, s)
      else case get_prop g current of
          Undefined \<Rightarrow> (None, s)
        | Inherited \<Rightarrow> (Some TypeError, s)
        | Own ns \<Rightarrow> dfs_neighbors_store g ra ca start path depth ns s)"
| "dfs_neighbors_store g ra ca start path depth [] s = (None, s)"
| "dfs_neighbors_store g ra ca start path depth (neighbor # ns) s =
     (let s1 = (if neighbor = start \<and> length path \<ge> 3 then push_ring_store ra ca s path
                else s)
      in if neighbor \<notin> set path
         then (case dfs_store g ra ca start neighbor (path @ [neighbor]) (depth + 1) s1 of
                 (Some e, s2) \<Rightarrow> (Some e, s2)
               | (None, s2) \<Rightarrow> dfs_neighbors_store g ra ca start path depth ns s2)
         else dfs_neighbors_store g ra ca start path depth ns s1)"
  by pat_completeness auto
termination
  by (relation "inv_image (less_than <*lex*> less_than)
        (\<lambda>x. case x of
           Inl (g, ra, ca, start, current, path, depth, s) \<Rightarrow> (2 * (8 - depth), 0)
         | Inr (g, ra, ca, start, path, depth, ns, s) \<Rightarrow> (2 * (7 - depth) + 1, length ns))")
     auto

fun detectCycles_loop_store ::
  "graph \<Rightarrow> nat \<Rightarrow> nat \<Rightarrow> string list \<Rightarrow> store \<Rightarrow> error option \<times> store" where
  "detectCycles_loop_store g ra ca [] s = (None, s)"
| "detectCycles_loop_store g ra ca (node # nodes) s =
     (case dfs_store g ra ca node node [node] 0 s of
        (Some e, s') \<Rightarrow> (Some e, s')
      | (None, s') \<Rightarrow> detectCycles_loop_store g ra ca nodes s')"

text \<open>\<open>detectCycles\<close>: \<open>const rings = []\<close> and \<open>let ringCount = 1\<close> allocate, the loop
  over the nodes runs, and \<open>return rings\<close> reads the array back.\<close>

definition detectCycles_store :: "graph \<Rightarrow> store \<Rightarrow> (error + ring list) \<times> store" where
  "detectCycles_store g s =
     (let ra = length (arrays s);
          ca = length (counters s);
          s0 = \<lparr>arrays = arrays s @ [[]], counters = counters s @ [1]\<rparr>
      in case detectCycles_loop_store g ra ca (own_keys g) s0 of
           (Some e, s') \<Rightarrow> (Inl e, s')
         | (None, s') \<Rightarrow> (Inr (arrays s' ! ra), s'))"

text \<open>The detection section and the handler, in a process with this store.\<close>

definition engine_store :: "transaction list \<Rightarrow> store \<Rightarrow> (error + detection) \<times> store" where
  "engine_store transactions s =
     (case buildGraph transactions of
        Inl e \<Rightarrow> (Inl e, s)
      | Inr b \<Rightarrow>
          (case detectCycles_store (graph b) s of
             (Inl e, s') \<Rightarrow> (Inl e, s')
           | (Inr rings', s') \<Rightarrow>
               (let f = detectFanPatterns transactions;
                    accounts' = collect_accounts transactions
                in (Inr \<lparr>found_accounts =
                           array_sort compare_score
                             (score_accounts accounts' rings' (fanIn f) (fanOut f)
                                (velocityMap b)),
                         found_rings = rings',
                         account_set = accounts'\<rparr>, s'))))"

definition analyze_store ::
  "int \<Rightarrow> int \<Rightarrow> transaction list \<Rightarrow> store \<Rightarrow> response \<times> store" where
  "analyze_store startTime now transactions s =
     (if length transactions = 0 then (Status400 ''No valid transactions found.'', s)
      else case engine_store transactions s of
          (Inl e, s') \<Rightarrow> (Status500 ''Analysis failed. Check CSV format.'', s')
        | (Inr d, s') \<Rightarrow>
            (Ok \<lparr>suspicious_accounts = found_accounts d,
                 fraud_rings = found_rings d,
                 summary =
                   \<lparr>total_accounts_analyzed = length (account_set d),
                    suspicious_accounts_flagged = length (found_accounts d),
                    fraud_rings_detected = length (found_rings d),
                    processing_time_seconds = real_of_int (now - startTime) / 1000\<rparr>\<rparr>,
             s'))"

text \<open>Not the code, but the design the specification warns against, for contrast: the
  counter is one variable of the module, at address 0, created when the module loads,
  and \<open>detectCycles\<close> creates only its array.\<close>

definition detectCycles_module_counter :: "graph \<Rightarrow> store \<Rightarrow> (error + ring list) \<times> store" where
  "detectCycles_module_counter g s =
     (let ra = length (arrays s);
          s0 = \<lparr>arrays = arrays s @ [[]], counters = counters s\<rparr>
      in case detectCycles_loop_store g ra 0 (own_keys g) s0 of
           (Some e, s') \<Rightarrow> (Inl e, s')
         | (None, s') \<Rightarrow> (Inr (arrays s' ! ra), s'))"

text \<open>The store holds the detector \<open>d\<close> at the addresses \<open>ra\<close> and \<open>ca\<close>.\<close>

definition holds :: "nat \<Rightarrow> nat \<Rightarrow> detector \<Rightarrow> store \<Rightarrow> bool" where
  "holds ra ca d s =
     (ra < length (arrays s) \<and> ca < length (counters s)
      \<and> arrays s ! ra = rings d \<and> counters s ! ca = ringCount d)"

section \<open>Evaluation on concrete inputs\<close>

lemma replicate_2: "replicate 2 c = [c, c]"
  by (simp add: numeral_2_eq_2)

lemmas eval_defs =
  engine_def buildGraph_def buildGraph_step_def get_prop_def object_prototype_keys_def
  incr_def detectCycles_def own_keys_def is_array_index_def is_digit_def int_of_digits_def
  push_ring_def mk_ring_id_def padStart_def digit_char_def detectFanPatterns_def
  detectFanPatterns_step_def calculateSuspicion_def collect_accounts_def set_add_def
  compare_score_def Let_def replicate_2

lemma engine_hub_example:
  "engine
     [\<lparr>sender_id = ''A'', receiver_id = ''B''\<rparr>, \<lparr>sender_id = ''B'', receiver_id = ''C''\<rparr>,
      \<lparr>sender_id = ''C'', receiver_id = ''A''\<rparr>,
      \<lparr>sender_id = ''D1'', receiver_id = ''A''\<rparr>, \<lparr>sender_id = ''D2'', receiver_id = ''A''\<rparr>,
      \<lparr>sender_id = ''D3'', receiver_id = ''A''\<rparr>, \<lparr>sender_id = ''D4'', receiver_id = ''A''\<rparr>,
      \<lparr>sender_id = ''A'', receiver_id = ''E1''\<rparr>, \<lparr>sender_id = ''A'', receiver_id = ''E2''\<rparr>,
      \<lparr>sender_id = ''A'', receiver_id = ''E3''\<rparr>, \<lparr>sender_id = ''A'', receiver_id = ''E4''\<rparr>,
      \<lparr>sender_id = ''A'', receiver_id = ''E5''\<rparr>, \<lparr>sender_id = ''A'', receiver_id = ''E6''\<rparr>,
      \<lparr>sender_id = ''A'', receiver_id = ''E7''\<rparr>, \<lparr>sender_id = ''A'', receiver_id = ''E8''\<rparr>,
      \<lparr>sender_id = ''A'', receiver_id = ''E9''\<rparr>]
   = Inr \<lparr>found_accounts =
            [\<lparr>account_id = ''A'', suspicion_score = 100,
              detected_patterns =
                [''cycle_network'', ''high_fan_in'', ''high_fan_out'', ''high_velocity''],
              ring_id = ''RING_001''\<rparr>,
             \<lparr>account_id = ''B'', suspicion_score = 50,
              detected_patterns = [''cycle_network''], ring_id = ''RING_001''\<rparr>,
             \<lparr>account_id = ''C'', suspicion_score = 50,
              detected_patterns = [''cycle_network''], ring_id = ''RING_001''\<rparr>],
          found_rings =
            [\<lparr>ring.ring_id = ''RING_001'', member_accounts = [''A'', ''B'', ''C''],
              pattern_type = ''cycle'', risk_score = 93\<rparr>,
             \<lparr>ring.ring_id = ''RING_002'', member_accounts = [''B'', ''C'', ''A''],
              pattern_type = ''cycle'', risk_score = 93\<rparr>,
             \<lparr>ring.ring_id = ''RING_003'', member_accounts = [''C'', ''A'', ''B''],
              pattern_type = ''cycle'', risk_score = 93\<rparr>],
          account_set =
            [''A'', ''B'', ''C'', ''D1'', ''D2'', ''D3'', ''D4'', ''E1'', ''E2'', ''E3'',
             ''E4'', ''E5'', ''E6'', ''E7'', ''E8'', ''E9'']\<rparr>"
  by (simp add: eval_defs)

section \<open>The scoring function\<close>

lemma find_filter: "find P xs = (case filter P xs of [] \<Rightarrow> None | x # _ \<Rightarrow> Some x)"
  by (induction xs) auto

lemma filter_Nil_list_ex: "(filter P xs = []) = (\<not> list_ex P xs)"
  by (induction xs) auto

text \<open>
  Claim C1. For every account, every ring list whose ring ids are not empty (every id
  that \<open>detectCycles\<close> mints starts with \<open>RING_\<close>) and every \<open>fanIn\<close>, \<open>fanOut\<close> and
  \<open>velocityMap\<close>, \<open>calculateSuspicion\<close> computes the additive score of the specification:
  50 and \<open>cycle_network\<close> for membership in a ring, 20 and \<open>high_fan_in\<close> for
  \<open>fanIn[account] >= 5\<close>, 20 and \<open>high_fan_out\<close> for \<open>fanOut[account] >= 5\<close>, 10 and
  \<open>high_velocity\<close> for \<open>velocityMap[account] >= 10\<close>; the score is the minimum of 100 and
  the sum, there is no result when the sum is 0, and the ring id is that of the first
  matching ring in list order, or \<open>N/A\<close> when no ring matches.
\<close>

theorem calculateSuspicion_meets_spec:
  assumes "\<forall>r \<in> set rings'. ring.ring_id r \<noteq> []"
  shows "calculateSuspicion account rings' fanIn' fanOut' velocityMap'
       = calculateSuspicion_spec account rings' fanIn' fanOut' velocityMap'"
proof (cases "filter (\<lambda>r. account \<in> set (member_accounts r)) rings'")
  case Nil
  then have "\<not> list_ex (\<lambda>r. account \<in> set (member_accounts r)) rings'"
    using filter_Nil_list_ex [of "\<lambda>r. account \<in> set (member_accounts r)" rings'] by simp
  with Nil show ?thesis
    by (simp add: calculateSuspicion_def calculateSuspicion_spec_def Let_def find_filter)
next
  case (Cons r rs)
  then have "r \<in> set rings'"
    by (metis filter_is_subset list.set_intros(1) subsetD)
  with assms have "ring.ring_id r \<noteq> []" by blast
  moreover from Cons have "list_ex (\<lambda>r. account \<in> set (member_accounts r)) rings'"
    using filter_Nil_list_ex [of "\<lambda>r. account \<in> set (member_accounts r)" rings'] by simp
  ultimately show ?thesis using Cons
    by (simp add: calculateSuspicion_def calculateSuspicion_spec_def Let_def find_filter)
qed

theorem calculateSuspicion_meets_spec_witness:
  "calculateSuspicion_spec ''B''
     [\<lparr>ring.ring_id = ''RING_001'', member_accounts = [''A'', ''B'', ''C''],
       pattern_type = ''cycle'', risk_score = 93\<rparr>,
      \<lparr>ring.ring_id = ''RING_002'', member_accounts = [''B'', ''C'', ''A''],
       pattern_type = ''cycle'', risk_score = 93\<rparr>]
     [(''B'', Num 5)] [(''B'', Num 4)] [(''B'', Num 4)]
   = Some \<lparr>suspicion.suspicion_score = 70,
            suspicion.detected_patterns = [''cycle_network'', ''high_fan_in''],
            suspicion.ring_id = ''RING_001''\<rparr>"
proof -
  let ?rs = "[\<lparr>ring.ring_id = ''RING_001'', member_accounts = [''A'', ''B'', ''C''],
       pattern_type = ''cycle'', risk_score = 93\<rparr>,
      \<lparr>ring.ring_id = ''RING_002'', member_accounts = [''B'', ''C'', ''A''],
       pattern_type = ''cycle'', risk_score = 93\<rparr>]"
  have ids: "\<forall>r \<in> set ?rs. ring.ring_id r \<noteq> []" by simp
  have "calculateSuspicion ''B'' ?rs [(''B'', Num 5)] [(''B'', Num 4)] [(''B'', Num 4)]
    = Some \<lparr>suspicion.suspicion_score = 70,
            suspicion.detected_patterns = [''cycle_network'', ''high_fan_in''],
            suspicion.ring_id = ''RING_001''\<rparr>"
    by (simp add: calculateSuspicion_def get_prop_def Let_def)
  with calculateSuspicion_meets_spec
         [OF ids, of "''B''" "[(''B'', Num 5)]" "[(''B'', Num 4)]" "[(''B'', Num 4)]"]
  show ?thesis by simp
qed

text \<open>
  Claim C7, as stated: an account that is a member of a detected ring and has
  \<open>fanOut >= 5\<close> and \<open>velocity >= 10\<close> gets the score 80. It fails for an account that
  also has \<open>fanIn >= 5\<close>: below, \<open>A\<close> is on the cycle \<open>A, B, C\<close>, sends ten transactions and
  receives five, and its score is 100.
\<close>

theorem ring_fanout_velocity_score_counterexample:
  "engine
     [\<lparr>sender_id = ''A'', receiver_id = ''B''\<rparr>, \<lparr>sender_id = ''B'', receiver_id = ''C''\<rparr>,
      \<lparr>sender_id = ''C'', receiver_id = ''A''\<rparr>,
      \<lparr>sender_id = ''D1'', receiver_id = ''A''\<rparr>, \<lparr>sender_id = ''D2'', receiver_id = ''A''\<rparr>,
      \<lparr>sender_id = ''D3'', receiver_id = ''A''\<rparr>, \<lparr>sender_id = ''D4'', receiver_id = ''A''\<rparr>,
      \<lparr>sender_id = ''A'', receiver_id = ''E1''\<rparr>, \<lparr>sender_id = ''A'', receiver_id = ''E2''\<rparr>,
      \<lparr>sender_id = ''A'', receiver_id = ''E3''\<rparr>, \<lparr>sender_id = ''A'', receiver_id = ''E4''\<rparr>,
      \<lparr>sender_id = ''A'', receiver_id = ''E5''\<rparr>, \<lparr>sender_id = ''A'', receiver_id = ''E6''\<rparr>,
      \<lparr>sender_id = ''A'', receiver_id = ''E7''\<rparr>, \<lparr>sender_id = ''A'', receiver_id = ''E8''\<rparr>,
      \<lparr>sender_id = ''A'', receiver_id = ''E9''\<rparr>]
   = Inr \<lparr>found_accounts =
            [\<lparr>account_id = ''A'', suspicion_score = 100,
              detected_patterns =
                [''cycle_network'', ''high_fan_in'', ''high_fan_out'', ''high_velocity''],
              ring_id = ''RING_001''\<rparr>,
             \<lparr>account_id = ''B'', suspicion_score = 50,
              detected_patterns = [''cycle_network''], ring_id = ''RING_001''\<rparr>,
             \<lparr>account_id = ''C'', suspicion_score = 50,
              detected_patterns = [''cycle_network''], ring_id = ''RING_001''\<rparr>],
          found_rings =
            [\<lparr>ring.ring_id = ''RING_001'', member_accounts = [''A'', ''B'', ''C''],
              pattern_type = ''cycle'', risk_score = 93\<rparr>,
             \<lparr>ring.ring_id = ''RING_002'', member_accounts = [''B'', ''C'', ''A''],
              pattern_type = ''cycle'', risk_score = 93\<rparr>,
             \<lparr>ring.ring_id = ''RING_003'', member_accounts = [''C'', ''A'', ''B''],
              pattern_type = ''cycle'', risk_score = 93\<rparr>],
          account_set =
            [''A'', ''B'', ''C'', ''D1'', ''D2'', ''D3'', ''D4'', ''E1'', ''E2'', ''E3'',
             ''E4'', ''E5'', ''E6'', ''E7'', ''E8'', ''E9'']\<rparr>"
  by (rule engine_hub_example)

text \<open>
  Claim C7, amended: for every account that is a member of some ring of the list and has
  \<open>fanOut[account] >= 5\<close> and \<open>velocityMap[account] >= 10\<close>, \<open>calculateSuspicion\<close> yields
  the score 80 when \<open>fanIn[account] >= 5\<close> is false, and 100 when it is true.
\<close>

theorem ring_fanout_velocity_score:
  assumes "r \<in> set rings'" and "account \<in> set (member_accounts r)"
    and "js_ge (get_prop fanOut' account) 5" and "js_ge (get_prop velocityMap' account) 10"
  shows "map_option suspicion.suspicion_score
           (calculateSuspicion account rings' fanIn' fanOut' velocityMap')
         = Some (if js_ge (get_prop fanIn' account) 5 then 100 else 80)"
proof -
  from assms(1,2) have "filter (\<lambda>r. account \<in> set (member_accounts r)) rings' \<noteq> []"
    by (auto simp: filter_empty_conv)
  then obtain r' rs where "filter (\<lambda>r. account \<in> set (member_accounts r)) rings' = r' # rs"
    by (cases "filter (\<lambda>r. account \<in> set (member_accounts r)) rings'") auto
  then show ?thesis using assms(3,4)
    by (simp add: calculateSuspicion_def Let_def find_filter)
qed

theorem ring_fanout_velocity_score_witness:
  "map_option suspicion.suspicion_score
     (calculateSuspicion ''A''
        [\<lparr>ring.ring_id = ''RING_001'', member_accounts = [''A'', ''B'', ''C''],
          pattern_type = ''cycle'', risk_score = 93\<rparr>]
        [(''A'', Num 1)] [(''A'', Num 10)] [(''A'', Num 10)])
   = Some 80"
  using ring_fanout_velocity_score
        [of "\<lparr>ring.ring_id = ''RING_001'', member_accounts = [''A'', ''B'', ''C''],
              pattern_type = ''cycle'', risk_score = 93\<rparr>"
            "[\<lparr>ring.ring_id = ''RING_001'', member_accounts = [''A'', ''B'', ''C''],
               pattern_type = ''cycle'', risk_score = 93\<rparr>]"
            "''A''" "[(''A'', Num 10)]" "[(''A'', Num 10)]" "[(''A'', Num 1)]"]
  by (simp add: get_prop_def)

text \<open>
  Claim C10. The clamp in \<open>calculateSuspicion\<close> changes nothing: the sum of the points
  is at most \<open>50 + 20 + 20 + 10 = 100\<close>, and reaches 100 when all four signals fire, so
  \<open>calculateSuspicion\<close> returns what the variant without \<open>Math.min(100, score)\<close>
  returns, on every input.
\<close>

theorem clamp_is_noop:
  "calculateSuspicion account rings' fanIn' fanOut' velocityMap'
     = calculateSuspicion_unclamped account rings' fanIn' fanOut' velocityMap'
   \<and> (case calculateSuspicion_unclamped account rings' fanIn' fanOut' velocityMap' of
        None \<Rightarrow> True
      | Some r \<Rightarrow> suspicion.suspicion_score r \<le> 100)
   \<and> map_option suspicion.suspicion_score
        (calculateSuspicion_unclamped ''A''
           [\<lparr>ring.ring_id = ''RING_001'', member_accounts = [''A'', ''B'', ''C''],
             pattern_type = ''cycle'', risk_score = 93\<rparr>]
           [(''A'', Num 5)] [(''A'', Num 10)] [(''A'', Num 10)])
      = Some 100"
  by (simp add: calculateSuspicion_def calculateSuspicion_unclamped_def Let_def get_prop_def
        split: option.splits)

section \<open>The empty transaction list\<close>

text \<open>
  Claim C8. On the empty transaction list nothing throws and every result is empty:
  \<open>buildGraph\<close> returns an empty graph and an empty velocity map, \<open>detectFanPatterns\<close>
  returns empty \<open>fanIn\<close> and \<open>fanOut\<close>, \<open>detectCycles\<close> on the empty graph returns no ring,
  and the detection section of the handler ends with an empty list of suspicious
  accounts. (The handler itself answers an empty list with status 400 before it reaches
  the detection section; the statement is about the four functions and the section run
  on the empty list.)
\<close>

theorem empty_transactions:
  "buildGraph [] = Inr \<lparr>graph = [], velocityMap = []\<rparr>
   \<and> detectFanPatterns [] = \<lparr>fanIn = [], fanOut = []\<rparr>
   \<and> detectCycles [] = Inr []
   \<and> engine [] = Inr \<lparr>found_accounts = [], found_rings = [], account_set = []\<rparr>"
  by (simp add: buildGraph_def detectFanPatterns_def detectCycles_def own_keys_def engine_def
        collect_accounts_def)

section \<open>Graph building and the fan maps\<close>

lemma map_of_set_prop: "map_of (set_prop obj k v) = (map_of obj)(k \<mapsto> v)"
  by (induction obj) auto

lemma keys_set_prop: "fst ` set (set_prop obj k v) = insert k (fst ` set obj)"
  unfolding dom_map_of_conv_image_fst [symmetric] by (simp add: map_of_set_prop)

lemma plain_keys_iff:
  "plain_keys obj \<longleftrightarrow> (\<forall>k \<in> fst ` set obj. k \<notin> set object_prototype_keys)"
  by (auto simp: plain_keys_def list_all_iff)

lemma get_prop_Own: "get_prop obj k = Own v \<longleftrightarrow> map_of obj k = Some v"
  by (simp add: get_prop_def split: option.splits)

lemma get_prop_Undefined:
  "get_prop obj k = Undefined \<longleftrightarrow> map_of obj k = None \<and> k \<notin> set object_prototype_keys"
  by (simp add: get_prop_def split: option.splits)

lemma get_prop_Inherited:
  "get_prop obj k = Inherited \<longleftrightarrow> map_of obj k = None \<and> k \<in> set object_prototype_keys"
  by (simp add: get_prop_def split: option.splits)

lemma buildGraph_step_velocity:
  "buildGraph_step b tx = Inr b' \<Longrightarrow> velocityMap b' = incr (velocityMap b) (sender_id tx)"
  by (auto simp: buildGraph_step_def split: property.splits)

lemma buildGraph_loop_velocity:
  "buildGraph_loop b txs = Inr b' \<Longrightarrow>
   velocityMap b' = foldl incr (velocityMap b) (map sender_id txs)"
proof (induction txs arbitrary: b)
  case Nil
  then show ?case by simp
next
  case (Cons tx txs)
  then obtain b1 where step: "buildGraph_step b tx = Inr b1"
    and rest: "buildGraph_loop b1 txs = Inr b'"
    by (auto split: sum.splits)
  from Cons.IH [OF rest] buildGraph_step_velocity [OF step] show ?case by simp
qed

lemma fanOut_foldl:
  "fanOut (foldl detectFanPatterns_step f txs) = foldl incr (fanOut f) (map sender_id txs)"
  by (induction txs arbitrary: f) (simp_all add: detectFanPatterns_step_def)

lemma fanIn_foldl:
  "fanIn (foldl detectFanPatterns_step f txs) = foldl incr (fanIn f) (map receiver_id txs)"
  by (induction txs arbitrary: f) (simp_all add: detectFanPatterns_step_def)

lemma buildGraph_step_plain:
  assumes "buildGraph_step b tx = Inr b'" and "plain_keys (graph b)"
  shows "sender_id tx \<notin> set object_prototype_keys \<and> plain_keys (graph b')"
proof -
  from assms(1) have "get_prop (graph b) (sender_id tx) \<noteq> Inherited"
    by (auto simp: buildGraph_step_def)
  then have "map_of (graph b) (sender_id tx) \<noteq> None \<or> sender_id tx \<notin> set object_prototype_keys"
    by (simp add: get_prop_Inherited)
  moreover have "sender_id tx \<notin> set object_prototype_keys"
    if "map_of (graph b) (sender_id tx) \<noteq> None"
  proof -
    from that have "sender_id tx \<in> fst ` set (graph b)"
      by (simp add: map_of_eq_None_iff)
    with assms(2) show ?thesis unfolding plain_keys_iff by blast
  qed
  ultimately have plain: "sender_id tx \<notin> set object_prototype_keys" by blast
  from assms(1) obtain v where "graph b' = set_prop (graph b) (sender_id tx) v"
    by (auto simp: buildGraph_step_def split: property.splits)
  then have keys: "fst ` set (graph b') = insert (sender_id tx) (fst ` set (graph b))"
    by (simp only: keys_set_prop)
  from assms(2) plain
  have "\<forall>k \<in> insert (sender_id tx) (fst ` set (graph b)). k \<notin> set object_prototype_keys"
    unfolding plain_keys_iff by blast
  then have "plain_keys (graph b')"
    unfolding plain_keys_iff keys .
  with plain show ?thesis by simp
qed

lemma buildGraph_loop_plain:
  "buildGraph_loop b txs = Inr b' \<Longrightarrow> plain_keys (graph b) \<Longrightarrow>
   list_all (\<lambda>tx. sender_id tx \<notin> set object_prototype_keys) txs \<and> plain_keys (graph b')"
proof (induction txs arbitrary: b)
  case Nil
  then show ?case by simp
next
  case (Cons tx txs)
  then obtain b1 where step: "buildGraph_step b tx = Inr b1"
    and rest: "buildGraph_loop b1 txs = Inr b'"
    by (auto split: sum.splits)
  from buildGraph_step_plain [OF step Cons.prems(2)] Cons.IH [OF rest] show ?case by simp
qed

lemma buildGraph_step_total:
  "sender_id tx \<notin> set object_prototype_keys \<Longrightarrow> \<exists>b'. buildGraph_step b tx = Inr b'"
  by (cases "get_prop (graph b) (sender_id tx)")
     (simp_all add: buildGraph_step_def get_prop_Inherited)

lemma buildGraph_loop_total:
  "list_all (\<lambda>tx. sender_id tx \<notin> set object_prototype_keys) txs \<Longrightarrow>
   \<exists>b'. buildGraph_loop b txs = Inr b'"
proof (induction txs arbitrary: b)
  case Nil
  then show ?case by simp
next
  case (Cons tx txs)
  then obtain b1 where "buildGraph_step b tx = Inr b1"
    using buildGraph_step_total [of tx b] by auto
  with Cons show ?case by simp
qed

lemma buildGraph_returns_iff:
  "(\<exists>b. buildGraph txs = Inr b)
   \<longleftrightarrow> list_all (\<lambda>tx. sender_id tx \<notin> set object_prototype_keys) txs"
  using buildGraph_loop_total [of txs "\<lparr>graph = [], velocityMap = []\<rparr>"]
    buildGraph_loop_plain [of "\<lparr>graph = [], velocityMap = []\<rparr>" txs]
  by (auto simp: buildGraph_def plain_keys_def)

lemma incr_counts:
  assumes "counts m c" and "k \<notin> set object_prototype_keys"
  shows "counts (incr m k) (c(k := c k + 1))"
proof (cases "c k = 0")
  case True
  with assms have "get_prop m k = Undefined"
    by (simp add: get_prop_Undefined counts_def)
  with assms(1) True show ?thesis
    by (simp add: incr_def counts_def map_of_set_prop)
next
  case False
  with assms(1) have "get_prop m k = Own (Num (int (c k)))"
    by (simp add: get_prop_Own counts_def)
  with assms(1) False show ?thesis
    by (simp add: incr_def counts_def map_of_set_prop)
qed

lemma foldl_incr_counts:
  "counts m c \<Longrightarrow> list_all (\<lambda>k. k \<notin> set object_prototype_keys) ks \<Longrightarrow>
   counts (foldl incr m ks) (\<lambda>a. c a + count_list ks a)"
proof (induction ks arbitrary: m c)
  case Nil
  then show ?case by simp
next
  case (Cons k ks)
  from Cons.prems have "counts (incr m k) (c(k := c k + 1))"
    using incr_counts [of m c k] by simp
  from Cons.IH [OF this] Cons.prems(2)
  have "counts (foldl incr (incr m k) ks) (\<lambda>a. (c(k := c k + 1)) a + count_list ks a)"
    by simp
  moreover have "(\<lambda>a. (c(k := c k + 1)) a + count_list ks a)
               = (\<lambda>a. c a + count_list (k # ks) a)"
    by auto
  ultimately show ?case by simp
qed

lemma count_list_senders:
  "count_list (map sender_id txs) a = length (filter (\<lambda>tx. sender_id tx = a) txs)"
  by (induction txs) auto

text \<open>
  On every transaction list on which \<open>buildGraph\<close> returns, that is, by
  \<open>buildGraph_returns_iff\<close>, on every list in which no sender names a member of
  \<open>Object.prototype\<close>, the \<open>fanOut\<close> object of \<open>detectFanPatterns\<close> equals the
  \<open>velocityMap\<close> of \<open>buildGraph\<close>, keys, key order and counts alike, and both hold for
  each account the number of transactions that list it as sender, and nothing for an
  account that sends none.
\<close>

lemma fanOut_equals_velocityMap:
  assumes "buildGraph transactions = Inr b"
  shows "fanOut (detectFanPatterns transactions) = velocityMap b
    \<and> (\<forall>a. map_of (velocityMap b) a =
           (if length (filter (\<lambda>tx. sender_id tx = a) transactions) = 0 then None
            else Some (Num (int (length (filter (\<lambda>tx. sender_id tx = a) transactions))))))"
proof -
  from assms have vm: "velocityMap b = foldl incr [] (map sender_id transactions)"
    using buildGraph_loop_velocity [of "\<lparr>graph = [], velocityMap = []\<rparr>" transactions b]
    by (simp add: buildGraph_def)
  have fo: "fanOut (detectFanPatterns transactions) = foldl incr [] (map sender_id transactions)"
    by (simp add: detectFanPatterns_def fanOut_foldl)
  from assms have "list_all (\<lambda>tx. sender_id tx \<notin> set object_prototype_keys) transactions"
    using buildGraph_loop_plain [of "\<lparr>graph = [], velocityMap = []\<rparr>" transactions b]
    by (simp add: buildGraph_def plain_keys_def)
  then have "list_all (\<lambda>k. k \<notin> set object_prototype_keys) (map sender_id transactions)"
    by (simp add: list_all_iff)
  moreover have "counts [] (\<lambda>a. 0)" by (simp add: counts_def)
  ultimately have "counts (velocityMap b) (\<lambda>a. 0 + count_list (map sender_id transactions) a)"
    unfolding vm by (rule foldl_incr_counts [rotated])
  then show ?thesis using vm fo
    by (simp add: counts_def count_list_senders)
qed

lemma fanOut_equals_velocityMap_example:
  "fanOut (detectFanPatterns
     [\<lparr>sender_id = ''A'', receiver_id = ''B''\<rparr>, \<lparr>sender_id = ''A'', receiver_id = ''C''\<rparr>,
      \<lparr>sender_id = ''B'', receiver_id = ''A''\<rparr>])
   = [(''A'', Num 2), (''B'', Num 1)]"
proof -
  have "buildGraph
     [\<lparr>sender_id = ''A'', receiver_id = ''B''\<rparr>, \<lparr>sender_id = ''A'', receiver_id = ''C''\<rparr>,
      \<lparr>sender_id = ''B'', receiver_id = ''A''\<rparr>]
    = Inr \<lparr>graph = [(''A'', [''B'', ''C'']), (''B'', [''A''])],
           velocityMap = [(''A'', Num 2), (''B'', Num 1)]\<rparr>"
    by (simp add: eval_defs)
  from fanOut_equals_velocityMap [OF this] show ?thesis by simp
qed

text \<open>
  Claim C5 says that for every transaction list \<open>fanOut\<close> and \<open>velocityMap\<close> are equal
  and map each account to the number of transactions that list it as sender. The code
  misses the senders that name a member of \<open>Object.prototype\<close>. On the single
  transaction from \<open>constructor\<close> to \<open>A\<close>, which the handler lets through,
  \<open>graph["constructor"]\<close> reads the inherited function, no array is created, and the
  call of \<open>push\<close> throws: \<open>buildGraph\<close> produces no \<open>velocityMap\<close>, and the handler answers
  with status 500. \<open>detectFanPatterns\<close> does return, but \<open>fanOut["constructor"]\<close> is the
  source text of the inherited function with \<open>1\<close> appended, not the count 1.
\<close>

theorem fanOut_velocityMap_on_constructor:
  "buildGraph [\<lparr>sender_id = ''constructor'', receiver_id = ''A''\<rparr>] = Inl TypeError
   \<and> fanOut (detectFanPatterns [\<lparr>sender_id = ''constructor'', receiver_id = ''A''\<rparr>])
     = [(''constructor'', NativeText ''constructor'' 1)]
   \<and> engine [\<lparr>sender_id = ''constructor'', receiver_id = ''A''\<rparr>] = Inl TypeError
   \<and> analyze startTime now [\<lparr>sender_id = ''constructor'', receiver_id = ''A''\<rparr>]
     = Status500 ''Analysis failed. Check CSV format.''"
  by (simp add: analyze_def eval_defs)

section \<open>Cycle detection\<close>

lemma number_rings_append:
  "number_rings n (ps @ qs) = number_rings n ps @ number_rings (n + length ps) qs"
  by (induction ps arbitrary: n) simp_all

lemma foldl_push_ring:
  "foldl push_ring d ps
   = \<lparr>rings = rings d @ number_rings (ringCount d) ps, ringCount = ringCount d + length ps\<rparr>"
  by (induction ps arbitrary: d) (simp_all add: push_ring_def)

lemma pushes_refl: "pushes d d"
  unfolding pushes_def by (rule exI [of _ "[]"]) simp

lemma pushes_trans: "pushes d d1 \<Longrightarrow> pushes d1 d2 \<Longrightarrow> pushes d d2"
proof -
  assume "pushes d d1" and "pushes d1 d2"
  then obtain ps qs where "d1 = foldl push_ring d ps" "list_all recorded_path ps"
    "d2 = foldl push_ring d1 qs" "list_all recorded_path qs"
    unfolding pushes_def by blast
  then have "d2 = foldl push_ring d (ps @ qs) \<and> list_all recorded_path (ps @ qs)"
    by simp
  then show "pushes d d2" unfolding pushes_def by blast
qed

lemma pushes_push_ring: "recorded_path p \<Longrightarrow> pushes d (push_ring d p)"
  unfolding pushes_def by (rule exI [of _ "[p]"]) simp

lemma dfs_pushes:
  "\<forall>d'. dfs g start current path depth d = Inr d' \<longrightarrow> distinct path
      \<longrightarrow> length path = depth + 1 \<longrightarrow> pushes d d'"
  "\<forall>d'. dfs_neighbors g start path depth ns d = Inr d' \<longrightarrow> distinct path
      \<longrightarrow> length path = depth + 1 \<longrightarrow> depth \<le> 6 \<longrightarrow> pushes d d'"
proof (induction g start current path depth d and g start path depth ns d
       rule: dfs_dfs_neighbors.induct)
  case (1 g start current path depth d)
  show ?case
  proof (intro allI impI)
    fix d'
    assume run: "dfs g start current path depth d = Inr d'"
      and path: "distinct path" "length path = depth + 1"
    show "pushes d d'"
    proof (cases "6 < depth")
      case True
      with run show ?thesis by (simp add: pushes_refl)
    next
      case False
      show ?thesis
      proof (cases "get_prop g current")
        case (Own ns)
        with run False have "dfs_neighbors g start path depth ns d = Inr d'" by simp
        with "1" [OF False Own] path False show ?thesis by simp
      next
        case Inherited
        with run False show ?thesis by simp
      next
        case Undefined
        with run False show ?thesis by (simp add: pushes_refl)
      qed
    qed
  qed
next
  case (2 g start path depth d)
  show ?case by (simp add: pushes_refl)
next
  case (3 g start path depth neighbor ns d)
  define d1 where "d1 = (if neighbor = start \<and> 3 \<le> length path then push_ring d path else d)"
  show ?case
  proof (intro allI impI)
    fix d'
    assume run: "dfs_neighbors g start path depth (neighbor # ns) d = Inr d'"
      and path: "distinct path" "length path = depth + 1" and depth: "depth \<le> 6"
    have first: "pushes d d1"
    proof (cases "neighbor = start \<and> 3 \<le> length path")
      case True
      with path depth have "recorded_path path" by (simp add: recorded_path_def)
      with True show ?thesis by (simp add: d1_def pushes_push_ring)
    next
      case False
      then have "d1 = d" unfolding d1_def by (rule if_not_P)
      then show ?thesis by (simp add: pushes_refl)
    qed
    show "pushes d d'"
    proof (cases "neighbor \<notin> set path")
      case True
      with run obtain d2 where
        deeper: "dfs g start neighbor (path @ [neighbor]) (depth + 1) d1 = Inr d2"
        and rest: "dfs_neighbors g start path depth ns d2 = Inr d'"
        by (auto simp: d1_def Let_def split: sum.splits)
      from "3.IH"(1) [OF d1_def True] deeper path True have "pushes d1 d2" by simp
      moreover from "3.IH"(2) [OF d1_def True deeper] rest path depth have "pushes d2 d'"
        by simp
      ultimately show ?thesis using first by (blast intro: pushes_trans)
    next
      case False
      with run have rest: "dfs_neighbors g start path depth ns d1 = Inr d'"
        by (simp add: d1_def Let_def)
      from "3.IH"(3) [OF d1_def False] rest path depth have "pushes d1 d'" by simp
      with first show ?thesis by (blast intro: pushes_trans)
    qed
  qed
qed

lemma detectCycles_loop_pushes:
  "detectCycles_loop g nodes d = Inr d' \<Longrightarrow> pushes d d'"
proof (induction nodes arbitrary: d)
  case Nil
  then show ?case by (simp add: pushes_refl)
next
  case (Cons node nodes)
  then obtain d1 where first: "dfs g node node [node] 0 d = Inr d1"
    and rest: "detectCycles_loop g nodes d1 = Inr d'"
    by (auto split: sum.splits)
  from dfs_pushes(1) [of g node node "[node]" 0 d] first have "pushes d d1" by simp
  with Cons.IH [OF rest] show ?case by (blast intro: pushes_trans)
qed

lemma detectCycles_recorded:
  assumes "detectCycles g = Inr rs"
  shows "\<exists>ps. rs = number_rings 1 ps \<and> list_all recorded_path ps"
proof -
  from assms obtain d where
    "detectCycles_loop g (own_keys g) \<lparr>rings = [], ringCount = 1\<rparr> = Inr d" and "rs = rings d"
    by (auto simp: detectCycles_def split: sum.splits)
  with detectCycles_loop_pushes [of g "own_keys g" "\<lparr>rings = [], ringCount = 1\<rparr>" d]
  show ?thesis by (auto simp: pushes_def foldl_push_ring)
qed

lemma number_rings_members: "map member_accounts (number_rings n ps) = ps"
  by (induction ps arbitrary: n) simp_all

lemma number_rings_ids:
  "map ring.ring_id (number_rings n ps) = map mk_ring_id [n ..< n + length ps]"
  by (induction ps arbitrary: n) (simp_all add: upt_rec)

lemma seven_cycle_rings:
  "detectCycles
     [(''A'', [''B'']), (''B'', [''C'']), (''C'', [''D'']), (''D'', [''E'']), (''E'', [''F'']), (''F'', [''G'']), (''G'', [''A''])]
   = Inr
      [\<lparr>ring.ring_id = ''RING_001'', member_accounts = [''A'', ''B'', ''C'', ''D'', ''E'', ''F'', ''G''],
        pattern_type = ''cycle'', risk_score = 97\<rparr>,
       \<lparr>ring.ring_id = ''RING_002'', member_accounts = [''B'', ''C'', ''D'', ''E'', ''F'', ''G'', ''A''],
        pattern_type = ''cycle'', risk_score = 97\<rparr>,
       \<lparr>ring.ring_id = ''RING_003'', member_accounts = [''C'', ''D'', ''E'', ''F'', ''G'', ''A'', ''B''],
        pattern_type = ''cycle'', risk_score = 97\<rparr>,
       \<lparr>ring.ring_id = ''RING_004'', member_accounts = [''D'', ''E'', ''F'', ''G'', ''A'', ''B'', ''C''],
        pattern_type = ''cycle'', risk_score = 97\<rparr>,
       \<lparr>ring.ring_id = ''RING_005'', member_accounts = [''E'', ''F'', ''G'', ''A'', ''B'', ''C'', ''D''],
        pattern_type = ''cycle'', risk_score = 97\<rparr>,
       \<lparr>ring.ring_id = ''RING_006'', member_accounts = [''F'', ''G'', ''A'', ''B'', ''C'', ''D'', ''E''],
        pattern_type = ''cycle'', risk_score = 97\<rparr>,
       \<lparr>ring.ring_id = ''RING_007'', member_accounts = [''G'', ''A'', ''B'', ''C'', ''D'', ''E'', ''F''],
        pattern_type = ''cycle'', risk_score = 97\<rparr>]"
  by (simp add: eval_defs)

lemma three_cycle_rings:
  "detectCycles [(''A'', [''B'']), (''B'', [''C'']), (''C'', [''A''])]
   = Inr
      [\<lparr>ring.ring_id = ''RING_001'', member_accounts = [''A'', ''B'', ''C''],
        pattern_type = ''cycle'', risk_score = 93\<rparr>,
       \<lparr>ring.ring_id = ''RING_002'', member_accounts = [''B'', ''C'', ''A''],
        pattern_type = ''cycle'', risk_score = 93\<rparr>,
       \<lparr>ring.ring_id = ''RING_003'', member_accounts = [''C'', ''A'', ''B''],
        pattern_type = ''cycle'', risk_score = 93\<rparr>]"
  by (simp add: eval_defs)

text \<open>
  Claim C3, as stated: no ring has more than 6 member accounts. It fails on a cycle of
  seven accounts: the search from \<open>A\<close> reaches \<open>G\<close> at depth 6, which the guard
  \<open>depth > 6\<close> lets through, with a path of length 7, and the edge from \<open>G\<close> back to \<open>A\<close>
  records it; the same happens from each of the seven starting nodes.
\<close>

theorem ring_length_at_most_6_counterexample:
  "buildGraph
     [\<lparr>sender_id = ''A'', receiver_id = ''B''\<rparr>, \<lparr>sender_id = ''B'', receiver_id = ''C''\<rparr>,
      \<lparr>sender_id = ''C'', receiver_id = ''D''\<rparr>, \<lparr>sender_id = ''D'', receiver_id = ''E''\<rparr>,
      \<lparr>sender_id = ''E'', receiver_id = ''F''\<rparr>, \<lparr>sender_id = ''F'', receiver_id = ''G''\<rparr>,
      \<lparr>sender_id = ''G'', receiver_id = ''A''\<rparr>]
   = Inr \<lparr>graph = [(''A'', [''B'']), (''B'', [''C'']), (''C'', [''D'']), (''D'', [''E'']),
                  (''E'', [''F'']), (''F'', [''G'']), (''G'', [''A''])],
          velocityMap = [(''A'', Num 1), (''B'', Num 1), (''C'', Num 1), (''D'', Num 1),
                        (''E'', Num 1), (''F'', Num 1), (''G'', Num 1)]\<rparr>
   \<and> detectCycles
     [(''A'', [''B'']), (''B'', [''C'']), (''C'', [''D'']), (''D'', [''E'']), (''E'', [''F'']), (''F'', [''G'']), (''G'', [''A''])]
   = Inr
      [\<lparr>ring.ring_id = ''RING_001'', member_accounts = [''A'', ''B'', ''C'', ''D'', ''E'', ''F'', ''G''],
        pattern_type = ''cycle'', risk_score = 97\<rparr>,
       \<lparr>ring.ring_id = ''RING_002'', member_accounts = [''B'', ''C'', ''D'', ''E'', ''F'', ''G'', ''A''],
        pattern_type = ''cycle'', risk_score = 97\<rparr>,
       \<lparr>ring.ring_id = ''RING_003'', member_accounts = [''C'', ''D'', ''E'', ''F'', ''G'', ''A'', ''B''],
        pattern_type = ''cycle'', risk_score = 97\<rparr>,
       \<lparr>ring.ring_id = ''RING_004'', member_accounts = [''D'', ''E'', ''F'', ''G'', ''A'', ''B'', ''C''],
        pattern_type = ''cycle'', risk_score = 97\<rparr>,
       \<lparr>ring.ring_id = ''RING_005'', member_accounts = [''E'', ''F'', ''G'', ''A'', ''B'', ''C'', ''D''],
        pattern_type = ''cycle'', risk_score = 97\<rparr>,
       \<lparr>ring.ring_id = ''RING_006'', member_accounts = [''F'', ''G'', ''A'', ''B'', ''C'', ''D'', ''E''],
        pattern_type = ''cycle'', risk_score = 97\<rparr>,
       \<lparr>ring.ring_id = ''RING_007'', member_accounts = [''G'', ''A'', ''B'', ''C'', ''D'', ''E'', ''F''],
        pattern_type = ''cycle'', risk_score = 97\<rparr>]"
  by (simp add: seven_cycle_rings) (simp add: eval_defs)

text \<open>
  Claim C3, amended: for every graph, the search stops once \<open>depth\<close> exceeds 6, a path
  at depth \<open>d\<close> has \<open>d + 1\<close> accounts, and so every ring that \<open>detectCycles\<close> returns has
  at most 7 member accounts (a ring involves 3 to 7 accounts); cycles of more than 7
  accounts are not recorded.
\<close>

theorem ring_length_at_most_7:
  assumes "detectCycles g = Inr rs"
  shows "\<forall>r \<in> set rs. length (member_accounts r) \<le> 7"
proof -
  from detectCycles_recorded [OF assms] obtain ps where
    "rs = number_rings 1 ps" and "list_all recorded_path ps" by blast
  then have "list_all recorded_path (map member_accounts rs)"
    by (simp add: number_rings_members)
  then show ?thesis by (simp add: list_all_iff recorded_path_def)
qed

theorem ring_length_at_most_7_witness:
  "case detectCycles
     [(''A'', [''B'']), (''B'', [''C'']), (''C'', [''D'']), (''D'', [''E'']), (''E'', [''F'']), (''F'', [''G'']), (''G'', [''A''])] of
     Inl e \<Rightarrow> False
   | Inr rs \<Rightarrow> list_all (\<lambda>r. length (member_accounts r) \<le> 7) rs"
  using ring_length_at_most_7 [OF seven_cycle_rings]
  by (simp add: seven_cycle_rings)

text \<open>
  Claim C4. For every graph, every ring that \<open>detectCycles\<close> returns has at least 3
  member accounts and no account twice: a node already on the path is never entered
  again, and a ring is pushed only when the path has length 3 or more.
\<close>

theorem ring_members_distinct:
  assumes "detectCycles g = Inr rs"
  shows "\<forall>r \<in> set rs. 3 \<le> length (member_accounts r) \<and> distinct (member_accounts r)"
proof -
  from detectCycles_recorded [OF assms] obtain ps where
    "rs = number_rings 1 ps" and "list_all recorded_path ps" by blast
  then have "list_all recorded_path (map member_accounts rs)"
    by (simp add: number_rings_members)
  then show ?thesis by (simp add: list_all_iff recorded_path_def)
qed

theorem ring_members_distinct_witness:
  "case detectCycles [(''A'', [''B'']), (''B'', [''C'']), (''C'', [''A''])] of
     Inl e \<Rightarrow> False
   | Inr rs \<Rightarrow>
       list_all (\<lambda>r. 3 \<le> length (member_accounts r) \<and> distinct (member_accounts r)) rs"
  using ring_members_distinct [OF three_cycle_rings]
  by (simp add: three_cycle_rings)

lemma detectCycles_ids:
  assumes "detectCycles g = Inr rs"
  shows "map ring.ring_id rs = map mk_ring_id [1 ..< Suc (length rs)]"
proof -
  from detectCycles_recorded [OF assms] obtain ps where rs: "rs = number_rings 1 ps" by blast
  have "length (number_rings 1 ps) = length ps"
    using number_rings_members [of 1 ps] by (metis length_map)
  with rs show ?thesis by (simp add: number_rings_ids)
qed

subsection \<open>A cycle of three accounts\<close>

lemma own_keys_length: "length (own_keys obj) = length obj"
proof -
  have "length (own_keys obj) = length (map fst obj)"
    unfolding own_keys_def by (simp only: length_append length_sort sum_length_filter_compl)
  then show ?thesis by simp
qed

lemma own_keys_set: "set (own_keys obj) = fst ` set obj"
  by (auto simp: own_keys_def)

lemma own_keys_distinct: "distinct (map fst obj) \<Longrightarrow> distinct (own_keys obj)"
  by (auto simp: own_keys_def)

lemma dfs_three_cycle:
  assumes "distinct [a, b, c]" and "s \<in> {a, b, c}"
  shows "dfs [(a, [b]), (b, [c]), (c, [a])] s s [s] 0 d = Inr (push_ring d (cycle_from a b c s))"
proof -
  from assms(1) have ne: "a \<noteq> b" "b \<noteq> a" "a \<noteq> c" "c \<noteq> a" "b \<noteq> c" "c \<noteq> b"
    by auto
  from assms(2) consider "s = a" | "s = b" | "s = c" by blast
  then show ?thesis
  proof cases
    case 1
    with ne show ?thesis by (simp add: get_prop_def cycle_from_def)
  next
    case 2
    with ne show ?thesis by (simp add: get_prop_def cycle_from_def)
  next
    case 3
    with ne show ?thesis by (simp add: get_prop_def cycle_from_def)
  qed
qed

lemma loop_three_cycle:
  assumes "distinct [a, b, c]"
  shows "set ks \<subseteq> {a, b, c} \<Longrightarrow>
    detectCycles_loop [(a, [b]), (b, [c]), (c, [a])] ks d
    = Inr (foldl push_ring d (map (cycle_from a b c) ks))"
proof (induction ks arbitrary: d)
  case Nil
  then show ?case by simp
next
  case (Cons k ks)
  then have "k \<in> {a, b, c}" and "set ks \<subseteq> {a, b, c}" by auto
  with dfs_three_cycle [OF assms, of k d] Cons.IH show ?case by simp
qed

lemma mk_ring_id_1: "mk_ring_id (Suc 0) = ''RING_001''"
  by (simp add: mk_ring_id_def padStart_def digit_char_def replicate_2)

lemma mk_ring_id_2: "mk_ring_id (Suc (Suc 0)) = ''RING_002''"
  by (simp add: mk_ring_id_def padStart_def digit_char_def replicate_2)

lemma mk_ring_id_3: "mk_ring_id (Suc (Suc (Suc 0))) = ''RING_003''"
  by (simp add: mk_ring_id_def padStart_def digit_char_def replicate_2)

lemma buildGraph_three_cycle:
  assumes "distinct [a, b, c]" and "list_all (\<lambda>k. k \<notin> set object_prototype_keys) [a, b, c]"
  shows "buildGraph [\<lparr>sender_id = a, receiver_id = b\<rparr>, \<lparr>sender_id = b, receiver_id = c\<rparr>,
                     \<lparr>sender_id = c, receiver_id = a\<rparr>]
    = Inr \<lparr>graph = [(a, [b]), (b, [c]), (c, [a])],
           velocityMap = [(a, Num 1), (b, Num 1), (c, Num 1)]\<rparr>"
proof -
  from assms(1) have ne: "a \<noteq> b" "b \<noteq> a" "a \<noteq> c" "c \<noteq> a" "b \<noteq> c" "c \<noteq> b"
    by auto
  with assms(2) show ?thesis
    by (simp add: buildGraph_def buildGraph_step_def get_prop_def incr_def)
qed

text \<open>
  Claim C2, as stated: the transactions \<open>A \<rightarrow> B\<close>, \<open>B \<rightarrow> C\<close>, \<open>C \<rightarrow> A\<close> produce exactly one
  ring. They produce three: the outer loop of \<open>detectCycles\<close> starts a search from each
  of \<open>A\<close>, \<open>B\<close> and \<open>C\<close>, and each search records the cycle as read from its start.
\<close>

theorem three_cycle_single_ring_counterexample:
  "engine
     [\<lparr>sender_id = ''A'', receiver_id = ''B''\<rparr>, \<lparr>sender_id = ''B'', receiver_id = ''C''\<rparr>,
      \<lparr>sender_id = ''C'', receiver_id = ''A''\<rparr>]
   = Inr \<lparr>found_accounts =
            [\<lparr>account_id = ''A'', suspicion_score = 50,
              detected_patterns = [''cycle_network''], ring_id = ''RING_001''\<rparr>,
             \<lparr>account_id = ''B'', suspicion_score = 50,
              detected_patterns = [''cycle_network''], ring_id = ''RING_001''\<rparr>,
             \<lparr>account_id = ''C'', suspicion_score = 50,
              detected_patterns = [''cycle_network''], ring_id = ''RING_001''\<rparr>],
          found_rings =
      [\<lparr>ring.ring_id = ''RING_001'', member_accounts = [''A'', ''B'', ''C''],
        pattern_type = ''cycle'', risk_score = 93\<rparr>,
       \<lparr>ring.ring_id = ''RING_002'', member_accounts = [''B'', ''C'', ''A''],
        pattern_type = ''cycle'', risk_score = 93\<rparr>,
       \<lparr>ring.ring_id = ''RING_003'', member_accounts = [''C'', ''A'', ''B''],
        pattern_type = ''cycle'', risk_score = 93\<rparr>],
          account_set = [''A'', ''B'', ''C'']\<rparr>"
  by (simp add: eval_defs)

text \<open>
  Claim C2, amended: for three different accounts \<open>a\<close>, \<open>b\<close>, \<open>c\<close>, none of them the name
  of a member of \<open>Object.prototype\<close>, the transactions \<open>a \<rightarrow> b\<close>, \<open>b \<rightarrow> c\<close>, \<open>c \<rightarrow> a\<close> build
  the graph with exactly these three edges, and \<open>detectCycles\<close> on it returns exactly
  three rings, \<open>RING_001\<close>, \<open>RING_002\<close> and \<open>RING_003\<close>, one for each node in the order in
  which the outer loop visits them; the ring of a node lists the three accounts of the
  cycle starting from that node, and each ring has the risk score 93.
\<close>

theorem three_cycle_detected:
  assumes "distinct [a, b, c]" and "list_all (\<lambda>k. k \<notin> set object_prototype_keys) [a, b, c]"
  shows "\<exists>s1 s2 s3.
    buildGraph [\<lparr>sender_id = a, receiver_id = b\<rparr>, \<lparr>sender_id = b, receiver_id = c\<rparr>,
                \<lparr>sender_id = c, receiver_id = a\<rparr>]
      = Inr \<lparr>graph = [(a, [b]), (b, [c]), (c, [a])],
             velocityMap = [(a, Num 1), (b, Num 1), (c, Num 1)]\<rparr>
    \<and> own_keys [(a, [b]), (b, [c]), (c, [a])] = [s1, s2, s3]
    \<and> set [s1, s2, s3] = {a, b, c}
    \<and> detectCycles [(a, [b]), (b, [c]), (c, [a])]
      = Inr [\<lparr>ring.ring_id = ''RING_001'', member_accounts = cycle_from a b c s1,
              pattern_type = ''cycle'', risk_score = 93\<rparr>,
             \<lparr>ring.ring_id = ''RING_002'', member_accounts = cycle_from a b c s2,
              pattern_type = ''cycle'', risk_score = 93\<rparr>,
             \<lparr>ring.ring_id = ''RING_003'', member_accounts = cycle_from a b c s3,
              pattern_type = ''cycle'', risk_score = 93\<rparr>]"
proof -
  let ?g = "[(a, [b]), (b, [c]), (c, [a])]"
  have "length (own_keys ?g) = 3" by (simp add: own_keys_length)
  then obtain s1 s2 s3 where keys: "own_keys ?g = [s1, s2, s3]"
    by (auto simp: length_Suc_conv numeral_3_eq_3)
  have members: "set [s1, s2, s3] = {a, b, c}"
    using own_keys_set [of ?g] unfolding keys by simp
  then have "set (own_keys ?g) \<subseteq> {a, b, c}" unfolding keys by simp
  from loop_three_cycle [OF assms(1) this, of "\<lparr>rings = [], ringCount = 1\<rparr>"]
  have "detectCycles ?g
    = Inr (rings (foldl push_ring \<lparr>rings = [], ringCount = 1\<rparr>
                    (map (cycle_from a b c) [s1, s2, s3])))"
    by (simp only: detectCycles_def keys sum.case)
  then have "detectCycles ?g = Inr (number_rings 1 (map (cycle_from a b c) [s1, s2, s3]))"
    by (simp only: foldl_push_ring detector.simps append_Nil)
  moreover have "int (length (cycle_from a b c s)) = 3" for s
    by (simp add: cycle_from_def)
  ultimately have "detectCycles ?g
      = Inr [\<lparr>ring.ring_id = ''RING_001'', member_accounts = cycle_from a b c s1,
              pattern_type = ''cycle'', risk_score = 93\<rparr>,
             \<lparr>ring.ring_id = ''RING_002'', member_accounts = cycle_from a b c s2,
              pattern_type = ''cycle'', risk_score = 93\<rparr>,
             \<lparr>ring.ring_id = ''RING_003'', member_accounts = cycle_from a b c s3,
              pattern_type = ''cycle'', risk_score = 93\<rparr>]"
    by (simp add: mk_ring_id_1 mk_ring_id_2 mk_ring_id_3)
  with keys members buildGraph_three_cycle [OF assms] show ?thesis by blast
qed

theorem three_cycle_detected_witness:
  "detectCycles [(''2'', [''3'']), (''3'', [''1'']), (''1'', [''2''])]
   = Inr [\<lparr>ring.ring_id = ''RING_001'', member_accounts = [''1'', ''2'', ''3''],
           pattern_type = ''cycle'', risk_score = 93\<rparr>,
          \<lparr>ring.ring_id = ''RING_002'', member_accounts = [''2'', ''3'', ''1''],
           pattern_type = ''cycle'', risk_score = 93\<rparr>,
          \<lparr>ring.ring_id = ''RING_003'', member_accounts = [''3'', ''1'', ''2''],
           pattern_type = ''cycle'', risk_score = 93\<rparr>]"
proof -
  have different: "distinct [''2'', ''3'', ''1'']" by simp
  have plain: "list_all (\<lambda>k. k \<notin> set object_prototype_keys) [''2'', ''3'', ''1'']"
    by (simp add: object_prototype_keys_def)
  from three_cycle_detected [OF different plain] obtain s1 s2 s3 where
    keys: "own_keys [(''2'', [''3'']), (''3'', [''1'']), (''1'', [''2''])] = [s1, s2, s3]"
    and found: "detectCycles [(''2'', [''3'']), (''3'', [''1'']), (''1'', [''2''])]
      = Inr [\<lparr>ring.ring_id = ''RING_001'', member_accounts = cycle_from ''2'' ''3'' ''1'' s1,
              pattern_type = ''cycle'', risk_score = 93\<rparr>,
             \<lparr>ring.ring_id = ''RING_002'', member_accounts = cycle_from ''2'' ''3'' ''1'' s2,
              pattern_type = ''cycle'', risk_score = 93\<rparr>,
             \<lparr>ring.ring_id = ''RING_003'', member_accounts = cycle_from ''2'' ''3'' ''1'' s3,
              pattern_type = ''cycle'', risk_score = 93\<rparr>]"
    by (elim exE conjE) (rule that; assumption)
  have "own_keys [(''2'', [''3'']), (''3'', [''1'']), (''1'', [''2''])] = [''1'', ''2'', ''3'']"
    by (simp add: own_keys_def is_array_index_def is_digit_def int_of_digits_def)
  with keys have "s1 = ''1''" and "s2 = ''2''" and "s3 = ''3''" by simp_all
  with found show ?thesis by (simp add: cycle_from_def)
qed

section \<open>The request handler\<close>

subsection \<open>Completion\<close>

text \<open>The detection section completes on every transaction list in which no account id
  names a member of \<open>Object.prototype\<close>.\<close>

lemma safe_graph_neighbours:
  assumes "safe_graph g" and "get_prop g k = Own ns"
  shows "list_all (\<lambda>n. get_prop g n \<noteq> Inherited) ns"
proof -
  from assms(2) have "map_of g k = Some ns" by (simp add: get_prop_Own)
  then have "ns \<in> set (map snd g)" by (force dest: map_of_SomeD)
  with assms(1) show ?thesis by (auto simp: safe_graph_def list_all_iff)
qed

lemma dfs_returns:
  "safe_graph g \<longrightarrow> get_prop g current \<noteq> Inherited
     \<longrightarrow> (\<exists>d'. dfs g start current path depth d = Inr d')"
  "safe_graph g \<longrightarrow> list_all (\<lambda>n. get_prop g n \<noteq> Inherited) ns
     \<longrightarrow> (\<exists>d'. dfs_neighbors g start path depth ns d = Inr d')"
proof (induction g start current path depth d and g start path depth ns d
       rule: dfs_dfs_neighbors.induct)
  case (1 g start current path depth d)
  show ?case
  proof (intro impI)
    assume safe: "safe_graph g" and here: "get_prop g current \<noteq> Inherited"
    show "\<exists>d'. dfs g start current path depth d = Inr d'"
    proof (cases "6 < depth")
      case True
      then show ?thesis by simp
    next
      case False
      show ?thesis
      proof (cases "get_prop g current")
        case (Own ns)
        from "1" [OF False Own] safe safe_graph_neighbours [OF safe Own]
        obtain d' where "dfs_neighbors g start path depth ns d = Inr d'" by blast
        with False Own show ?thesis by simp
      next
        case Inherited
        with here show ?thesis by simp
      next
        case Undefined
        with False show ?thesis by simp
      qed
    qed
  qed
next
  case (2 g start path depth d)
  show ?case by simp
next
  case (3 g start path depth neighbor ns d)
  define d1 where "d1 = (if neighbor = start \<and> 3 \<le> length path then push_ring d path else d)"
  show ?case
  proof (intro impI)
    assume safe: "safe_graph g"
      and all: "list_all (\<lambda>n. get_prop g n \<noteq> Inherited) (neighbor # ns)"
    then have here: "get_prop g neighbor \<noteq> Inherited"
      and rest: "list_all (\<lambda>n. get_prop g n \<noteq> Inherited) ns" by simp_all
    show "\<exists>d'. dfs_neighbors g start path depth (neighbor # ns) d = Inr d'"
    proof (cases "neighbor \<notin> set path")
      case True
      from "3.IH"(1) [OF d1_def True] safe here
      obtain d2 where deeper: "dfs g start neighbor (path @ [neighbor]) (depth + 1) d1 = Inr d2"
        by blast
      from "3.IH"(2) [OF d1_def True deeper] safe rest
      obtain d' where "dfs_neighbors g start path depth ns d2 = Inr d'" by blast
      with True deeper show ?thesis by (simp add: d1_def Let_def)
    next
      case False
      from "3.IH"(3) [OF d1_def False] safe rest
      obtain d' where "dfs_neighbors g start path depth ns d1 = Inr d'" by blast
      with False show ?thesis by (simp add: d1_def Let_def)
    qed
  qed
qed

lemma detectCycles_loop_returns:
  "safe_graph g \<Longrightarrow> list_all (\<lambda>n. get_prop g n \<noteq> Inherited) nodes \<Longrightarrow>
   \<exists>d'. detectCycles_loop g nodes d = Inr d'"
proof (induction nodes arbitrary: d)
  case Nil
  then show ?case by simp
next
  case (Cons node nodes)
  from dfs_returns(1) [of g node node "[node]" 0 d] Cons.prems
  obtain d1 where "dfs g node node [node] 0 d = Inr d1" by auto
  moreover from Cons obtain d' where "detectCycles_loop g nodes d1 = Inr d'" by auto
  ultimately show ?case by simp
qed

lemma own_key_not_Inherited: "k \<in> fst ` set obj \<Longrightarrow> get_prop obj k \<noteq> Inherited"
  by (simp add: get_prop_Inherited map_of_eq_None_iff)

lemma detectCycles_returns:
  assumes "safe_graph g"
  shows "\<exists>rs. detectCycles g = Inr rs"
proof -
  have "list_all (\<lambda>n. get_prop g n \<noteq> Inherited) (own_keys g)"
    by (simp add: list_all_iff own_keys_set own_key_not_Inherited)
  from detectCycles_loop_returns [OF assms this]
  obtain d' where "detectCycles_loop g (own_keys g) \<lparr>rings = [], ringCount = 1\<rparr> = Inr d'"
    by blast
  then show ?thesis by (simp add: detectCycles_def)
qed

lemma set_set_prop: "set (set_prop obj k v) \<subseteq> insert (k, v) (set obj)"
  by (induction obj) (auto split: if_splits)

lemma buildGraph_step_receivers:
  assumes "buildGraph_step b tx = Inr b'"
    and "\<forall>ns \<in> snd ` set (graph b). set ns \<subseteq> R" and "receiver_id tx \<in> R"
  shows "\<forall>ns \<in> snd ` set (graph b'). set ns \<subseteq> R"
proof (cases "get_prop (graph b) (sender_id tx)")
  case (Own rs)
  then have "map_of (graph b) (sender_id tx) = Some rs" by (simp add: get_prop_Own)
  then have "rs \<in> snd ` set (graph b)" by (force dest: map_of_SomeD)
  with assms(2,3) have "set (rs @ [receiver_id tx]) \<subseteq> R" by auto
  moreover from assms(1) Own
  have "graph b' = set_prop (graph b) (sender_id tx) (rs @ [receiver_id tx])"
    by (auto simp: buildGraph_step_def)
  ultimately show ?thesis
    using assms(2) set_set_prop [of "graph b" "sender_id tx" "rs @ [receiver_id tx]"]
    by fastforce
next
  case Inherited
  with assms(1) show ?thesis by (simp add: buildGraph_step_def)
next
  case Undefined
  with assms(1)
  have "graph b' = set_prop (graph b) (sender_id tx) [receiver_id tx]"
    by (auto simp: buildGraph_step_def)
  then show ?thesis
    using assms(2,3) set_set_prop [of "graph b" "sender_id tx" "[receiver_id tx]"]
    by fastforce
qed

lemma buildGraph_loop_receivers:
  "buildGraph_loop b txs = Inr b' \<Longrightarrow> \<forall>ns \<in> snd ` set (graph b). set ns \<subseteq> R \<Longrightarrow>
   receiver_id ` set txs \<subseteq> R \<Longrightarrow> \<forall>ns \<in> snd ` set (graph b'). set ns \<subseteq> R"
proof (induction txs arbitrary: b)
  case Nil
  then show ?case by simp
next
  case (Cons tx txs)
  then obtain b1 where step: "buildGraph_step b tx = Inr b1"
    and rest: "buildGraph_loop b1 txs = Inr b'"
    by (auto split: sum.splits)
  from Cons.prems(3) have "receiver_id tx \<in> R" and "receiver_id ` set txs \<subseteq> R" by auto
  with buildGraph_step_receivers [OF step Cons.prems(2)] Cons.IH [OF rest] show ?case
    by blast
qed

lemma engine_returns:
  assumes "list_all (\<lambda>tx. sender_id tx \<notin> set object_prototype_keys
                        \<and> receiver_id tx \<notin> set object_prototype_keys) transactions"
  shows "\<exists>d. engine transactions = Inr d"
proof -
  from assms have "list_all (\<lambda>tx. sender_id tx \<notin> set object_prototype_keys) transactions"
    by (simp add: list_all_iff)
  then obtain b where built: "buildGraph transactions = Inr b"
    using buildGraph_returns_iff [of transactions] by blast
  from assms have "receiver_id ` set transactions \<subseteq> {k. k \<notin> set object_prototype_keys}"
    by (auto simp: list_all_iff)
  with built have "\<forall>ns \<in> snd ` set (graph b). set ns \<subseteq> {k. k \<notin> set object_prototype_keys}"
    using buildGraph_loop_receivers
            [of "\<lparr>graph = [], velocityMap = []\<rparr>" transactions b
                "{k. k \<notin> set object_prototype_keys}"]
    by (simp add: buildGraph_def)
  then have "safe_graph (graph b)"
    by (auto simp: safe_graph_def list_all_iff get_prop_Inherited)
  from detectCycles_returns [OF this] obtain rs where "detectCycles (graph b) = Inr rs"
    by blast
  with built show ?thesis by (simp add: engine_def Let_def)
qed

subsection \<open>The account set\<close>

lemma set_add_set: "set (set_add s x) = insert x (set s)"
  by (auto simp: set_add_def)

lemma set_add_distinct: "distinct s \<Longrightarrow> distinct (set_add s x)"
  by (simp add: set_add_def)

lemma collect_accounts_foldl:
  "distinct acc \<Longrightarrow>
   distinct (foldl (\<lambda>accounts tx. set_add (set_add accounts (sender_id tx)) (receiver_id tx))
               acc txs)
   \<and> set (foldl (\<lambda>accounts tx. set_add (set_add accounts (sender_id tx)) (receiver_id tx))
               acc txs)
     = set acc \<union> sender_id ` set txs \<union> receiver_id ` set txs"
proof (induction txs arbitrary: acc)
  case Nil
  then show ?case by simp
next
  case (Cons tx txs)
  from Cons.prems have "distinct (set_add (set_add acc (sender_id tx)) (receiver_id tx))"
    by (simp add: set_add_distinct)
  from Cons.IH [OF this] show ?case
    by (auto simp: set_add_set)
qed

lemma collect_accounts_distinct: "distinct (collect_accounts txs)"
  using collect_accounts_foldl [of "[]" txs] by (simp add: collect_accounts_def)

lemma collect_accounts_set:
  "set (collect_accounts txs) = sender_id ` set txs \<union> receiver_id ` set txs"
  using collect_accounts_foldl [of "[]" txs] by (simp add: collect_accounts_def)

subsection \<open>The sort\<close>

lemma insert_by_set: "set (insert_by cmp x ys) = insert x (set ys)"
  by (induction ys) auto

lemma array_sort_set: "set (array_sort cmp xs) = set xs"
  by (induction xs) (auto simp: insert_by_set)

lemma insert_by_descending:
  "sorted_wrt (\<lambda>a b. suspicion_score b \<le> suspicion_score a) ys \<Longrightarrow>
   sorted_wrt (\<lambda>a b. suspicion_score b \<le> suspicion_score a) (insert_by compare_score x ys)"
proof (induction ys)
  case Nil
  then show ?case by simp
next
  case (Cons y ys)
  show ?case
  proof (cases "compare_score x y \<le> 0")
    case True
    then have "suspicion_score y \<le> suspicion_score x"
      by (simp add: compare_score_def)
    with Cons.prems show ?thesis using True by fastforce
  next
    case False
    then have "suspicion_score x \<le> suspicion_score y"
      by (simp add: compare_score_def)
    with Cons show ?thesis using False by (auto simp: insert_by_set)
  qed
qed

lemma array_sort_descending:
  "sorted_wrt (\<lambda>a b. suspicion_score b \<le> suspicion_score a) (array_sort compare_score xs)"
  by (induction xs) (simp_all add: insert_by_descending)

lemma insert_by_ties:
  "filter (\<lambda>r. suspicion_score r = s) (insert_by compare_score x ys)
   = (if suspicion_score x = s then x # filter (\<lambda>r. suspicion_score r = s) ys
      else filter (\<lambda>r. suspicion_score r = s) ys)"
  by (induction ys) (auto simp: compare_score_def)

lemma array_sort_ties:
  "filter (\<lambda>r. suspicion_score r = s) (array_sort compare_score xs)
   = filter (\<lambda>r. suspicion_score r = s) xs"
  by (induction xs) (simp_all add: insert_by_ties)

subsection \<open>The scoring loop\<close>

lemma score_accounts_ties:
  "map account_id (filter (\<lambda>r. suspicion_score r = s) (score_accounts accs R fi fo vm))
   = filter (\<lambda>a. map_option suspicion.suspicion_score (calculateSuspicion a R fi fo vm) = Some s)
       accs"
  by (induction accs) (auto split: option.splits)

lemma score_accounts_member:
  "r \<in> set (score_accounts accs R fi fo vm) \<longleftrightarrow>
   (\<exists>a \<in> set accs. \<exists>res. calculateSuspicion a R fi fo vm = Some res
      \<and> r = \<lparr>account_id = a, suspicion_score = suspicion.suspicion_score res,
              detected_patterns = suspicion.detected_patterns res,
              ring_id = suspicion.ring_id res\<rparr>)"
  by (induction accs) (auto split: option.splits)

lemma score_accounts_has:
  assumes "a \<in> set accs" and "calculateSuspicion a R fi fo vm = Some z"
  shows "\<exists>r \<in> set (score_accounts accs R fi fo vm).
           account_id r = a \<and> suspicion_score r = suspicion.suspicion_score z"
proof -
  let ?r = "\<lparr>account_id = a, suspicion_score = suspicion.suspicion_score z,
             detected_patterns = suspicion.detected_patterns z,
             ring_id = suspicion.ring_id z\<rparr>"
  from assms have "?r \<in> set (score_accounts accs R fi fo vm)"
    unfolding score_accounts_member by blast
  moreover have "account_id ?r = a \<and> suspicion_score ?r = suspicion.suspicion_score z"
    by simp
  ultimately show ?thesis by blast
qed

lemma score_accounts_only:
  assumes "r \<in> set (score_accounts accs R fi fo vm)"
  shows "map_option suspicion.suspicion_score (calculateSuspicion (account_id r) R fi fo vm)
         = Some (suspicion_score r)"
  using assms unfolding score_accounts_member by auto

lemma sorted_ties:
  "map account_id (filter (\<lambda>r. suspicion_score r = s)
      (array_sort compare_score (score_accounts accs R fi fo vm)))
   = filter (\<lambda>a. \<exists>r \<in> set (array_sort compare_score (score_accounts accs R fi fo vm)).
                account_id r = a \<and> suspicion_score r = s) accs"
proof -
  have "(map_option suspicion.suspicion_score (calculateSuspicion a R fi fo vm) = Some s)
      = (\<exists>r \<in> set (array_sort compare_score (score_accounts accs R fi fo vm)).
                account_id r = a \<and> suspicion_score r = s)"
    if "a \<in> set accs" for a
  proof
    assume "map_option suspicion.suspicion_score (calculateSuspicion a R fi fo vm) = Some s"
    then obtain z where "calculateSuspicion a R fi fo vm = Some z"
      and "suspicion.suspicion_score z = s" by auto
    with score_accounts_has [OF that, of R fi fo vm z]
    show "\<exists>r \<in> set (array_sort compare_score (score_accounts accs R fi fo vm)).
                account_id r = a \<and> suspicion_score r = s"
      by (simp add: array_sort_set)
  next
    assume "\<exists>r \<in> set (array_sort compare_score (score_accounts accs R fi fo vm)).
                account_id r = a \<and> suspicion_score r = s"
    then obtain r where "r \<in> set (score_accounts accs R fi fo vm)"
      and "account_id r = a" and "suspicion_score r = s"
      by (auto simp: array_sort_set)
    with score_accounts_only [of r accs R fi fo vm]
    show "map_option suspicion.suspicion_score (calculateSuspicion a R fi fo vm) = Some s"
      by simp
  qed
  then show ?thesis
    by (simp add: array_sort_ties score_accounts_ties cong: filter_cong)
qed

text \<open>
  Claim C6. For every transaction list on which the detection section completes (by
  \<open>engine_returns\<close>, every list in which no account id names a member of
  \<open>Object.prototype\<close>), the list of suspicious accounts is sorted by non-increasing \<open>suspicion_score\<close>, and the
  entries of equal score stand in the order in which their accounts stand in the account
  set, which lists every sender and receiver once, in order of first appearance.
\<close>

theorem suspicious_accounts_sorted_stable:
  assumes "engine transactions = Inr d"
  shows "sorted_wrt (\<lambda>a b. suspicion_score b \<le> suspicion_score a) (found_accounts d)
    \<and> (\<forall>s. map account_id (filter (\<lambda>r. suspicion_score r = s) (found_accounts d))
           = filter (\<lambda>a. \<exists>r \<in> set (found_accounts d). account_id r = a \<and> suspicion_score r = s)
               (account_set d))
    \<and> account_set d = collect_accounts transactions
    \<and> distinct (account_set d)
    \<and> set (account_set d) = sender_id ` set transactions \<union> receiver_id ` set transactions"
  using assms
  by (auto simp: engine_def Let_def array_sort_descending sorted_ties collect_accounts_distinct
        collect_accounts_set split: sum.splits)

theorem suspicious_accounts_sorted_stable_witness:
  "case engine
     [\<lparr>sender_id = ''A'', receiver_id = ''B''\<rparr>, \<lparr>sender_id = ''B'', receiver_id = ''C''\<rparr>,
      \<lparr>sender_id = ''C'', receiver_id = ''A''\<rparr>,
      \<lparr>sender_id = ''D1'', receiver_id = ''A''\<rparr>, \<lparr>sender_id = ''D2'', receiver_id = ''A''\<rparr>,
      \<lparr>sender_id = ''D3'', receiver_id = ''A''\<rparr>, \<lparr>sender_id = ''D4'', receiver_id = ''A''\<rparr>,
      \<lparr>sender_id = ''A'', receiver_id = ''E1''\<rparr>, \<lparr>sender_id = ''A'', receiver_id = ''E2''\<rparr>,
      \<lparr>sender_id = ''A'', receiver_id = ''E3''\<rparr>, \<lparr>sender_id = ''A'', receiver_id = ''E4''\<rparr>,
      \<lparr>sender_id = ''A'', receiver_id = ''E5''\<rparr>, \<lparr>sender_id = ''A'', receiver_id = ''E6''\<rparr>,
      \<lparr>sender_id = ''A'', receiver_id = ''E7''\<rparr>, \<lparr>sender_id = ''A'', receiver_id = ''E8''\<rparr>,
      \<lparr>sender_id = ''A'', receiver_id = ''E9''\<rparr>] of
     Inl e \<Rightarrow> False
   | Inr d \<Rightarrow>
       sorted_wrt (\<lambda>a b. suspicion_score b \<le> suspicion_score a) (found_accounts d)
       \<and> map account_id (filter (\<lambda>r. suspicion_score r = 50) (found_accounts d))
         = [''B'', ''C'']"
  using suspicious_accounts_sorted_stable [OF engine_hub_example]
  by (simp add: engine_hub_example)

lemma engine_rings:
  assumes "engine transactions = Inr d"
  shows "\<exists>b. buildGraph transactions = Inr b \<and> detectCycles (graph b) = Inr (found_rings d)"
  using assms by (auto simp: engine_def Let_def split: sum.splits)

subsection \<open>Runs of one process\<close>

text \<open>The run in the store computes what the run on values computes, whatever the store
  holds when it starts.\<close>

lemma push_ring_holds:
  "holds ra ca d s \<Longrightarrow> holds ra ca (push_ring d path) (push_ring_store ra ca s path)"
  by (simp add: holds_def push_ring_def push_ring_store_def)

lemma dfs_store_refines:
  "\<forall>s. holds ra ca d s \<longrightarrow>
     (case dfs g start current path depth d of
        Inl e \<Rightarrow> fst (dfs_store g ra ca start current path depth s) = Some e
      | Inr d' \<Rightarrow> fst (dfs_store g ra ca start current path depth s) = None
          \<and> holds ra ca d' (snd (dfs_store g ra ca start current path depth s)))"
  "\<forall>s. holds ra ca d s \<longrightarrow>
     (case dfs_neighbors g start path depth ns d of
        Inl e \<Rightarrow> fst (dfs_neighbors_store g ra ca start path depth ns s) = Some e
      | Inr d' \<Rightarrow> fst (dfs_neighbors_store g ra ca start path depth ns s) = None
          \<and> holds ra ca d' (snd (dfs_neighbors_store g ra ca start path depth ns s)))"
proof (induction g start current path depth d and g start path depth ns d
       rule: dfs_dfs_neighbors.induct)
  case (1 g start current path depth d)
  show ?case
  proof (intro allI impI)
    fix s
    assume h: "holds ra ca d s"
    show "case dfs g start current path depth d of
        Inl e \<Rightarrow> fst (dfs_store g ra ca start current path depth s) = Some e
      | Inr d' \<Rightarrow> fst (dfs_store g ra ca start current path depth s) = None
          \<and> holds ra ca d' (snd (dfs_store g ra ca start current path depth s))"
    proof (cases "6 < depth")
      case True
      with h show ?thesis by simp
    next
      case False
      show ?thesis
      proof (cases "get_prop g current")
        case (Own ns)
        from False Own
        have pure: "dfs g start current path depth d = dfs_neighbors g start path depth ns d"
          by simp
        from False Own
        have stored: "dfs_store g ra ca start current path depth s
            = dfs_neighbors_store g ra ca start path depth ns s"
          by simp
        from "1" [OF False Own, rule_format, OF h] show ?thesis unfolding pure stored .
      next
        case Inherited
        with False show ?thesis by simp
      next
        case Undefined
        with h False show ?thesis by simp
      qed
    qed
  qed
next
  case (2 g start path depth d)
  show ?case by simp
next
  case (3 g start path depth neighbor ns d)
  define d1 where "d1 = (if neighbor = start \<and> 3 \<le> length path then push_ring d path else d)"
  show ?case
  proof (intro allI impI)
    fix s
    assume h: "holds ra ca d s"
    define s1 where
      "s1 = (if neighbor = start \<and> 3 \<le> length path then push_ring_store ra ca s path else s)"
    from h have h1: "holds ra ca d1 s1"
      by (simp add: d1_def s1_def push_ring_holds)
    show "case dfs_neighbors g start path depth (neighbor # ns) d of
        Inl e \<Rightarrow> fst (dfs_neighbors_store g ra ca start path depth (neighbor # ns) s) = Some e
      | Inr d' \<Rightarrow> fst (dfs_neighbors_store g ra ca start path depth (neighbor # ns) s) = None
          \<and> holds ra ca d' (snd (dfs_neighbors_store g ra ca start path depth (neighbor # ns) s))"
    proof (cases "neighbor \<notin> set path")
      case True
      obtain r s2 where run:
        "dfs_store g ra ca start neighbor (path @ [neighbor]) (depth + 1) s1 = (r, s2)"
        by (cases "dfs_store g ra ca start neighbor (path @ [neighbor]) (depth + 1) s1")
      from True have pure: "dfs_neighbors g start path depth (neighbor # ns) d
          = (case dfs g start neighbor (path @ [neighbor]) (depth + 1) d1 of
               Inl e \<Rightarrow> Inl e
             | Inr d2 \<Rightarrow> dfs_neighbors g start path depth ns d2)"
        by (simp add: d1_def Let_def del: dfs.simps)
      from True run have stored: "dfs_neighbors_store g ra ca start path depth (neighbor # ns) s
          = (case r of
               Some e \<Rightarrow> (Some e, s2)
             | None \<Rightarrow> dfs_neighbors_store g ra ca start path depth ns s2)"
        by (simp add: s1_def Let_def del: dfs_store.simps)
      show ?thesis
      proof (cases "dfs g start neighbor (path @ [neighbor]) (depth + 1) d1")
        case (Inl e)
        with "3.IH"(1) [OF d1_def True, rule_format, OF h1] run have "r = Some e"
          by (simp del: dfs.simps dfs_store.simps)
        with stored have stored':
          "dfs_neighbors_store g ra ca start path depth (neighbor # ns) s = (Some e, s2)"
          by simp
        from pure Inl have pure': "dfs_neighbors g start path depth (neighbor # ns) d = Inl e"
          by (simp del: dfs.simps)
        show ?thesis unfolding pure' stored' by simp
      next
        case (Inr d2)
        with "3.IH"(1) [OF d1_def True, rule_format, OF h1] run
        have "r = None" and h2: "holds ra ca d2 s2"
          by (simp_all del: dfs.simps dfs_store.simps)
        with stored have stored':
          "dfs_neighbors_store g ra ca start path depth (neighbor # ns) s
           = dfs_neighbors_store g ra ca start path depth ns s2"
          by simp
        from pure Inr have pure': "dfs_neighbors g start path depth (neighbor # ns) d
           = dfs_neighbors g start path depth ns d2"
          by (simp del: dfs.simps)
        from "3.IH"(2) [OF d1_def True Inr, rule_format, OF h2] show ?thesis
          unfolding pure' stored' .
      qed
    next
      case False
      then have pure: "dfs_neighbors g start path depth (neighbor # ns) d
          = dfs_neighbors g start path depth ns d1"
        by (simp add: d1_def Let_def)
      from False have stored: "dfs_neighbors_store g ra ca start path depth (neighbor # ns) s
          = dfs_neighbors_store g ra ca start path depth ns s1"
        by (simp add: s1_def Let_def)
      from "3.IH"(3) [OF d1_def False, rule_format, OF h1] show ?thesis
        unfolding pure stored .
    qed
  qed
qed

lemma dfs_store_refines_from:
  assumes "holds ra ca d s"
  shows "case dfs g start current path depth d of
        Inl e \<Rightarrow> fst (dfs_store g ra ca start current path depth s) = Some e
      | Inr d' \<Rightarrow> fst (dfs_store g ra ca start current path depth s) = None
          \<and> holds ra ca d' (snd (dfs_store g ra ca start current path depth s))"
  using dfs_store_refines(1) [rule_format, OF assms] .

lemma detectCycles_loop_store_refines:
  "holds ra ca d s \<Longrightarrow>
     (case detectCycles_loop g nodes d of
        Inl e \<Rightarrow> fst (detectCycles_loop_store g ra ca nodes s) = Some e
      | Inr d' \<Rightarrow> fst (detectCycles_loop_store g ra ca nodes s) = None
          \<and> holds ra ca d' (snd (detectCycles_loop_store g ra ca nodes s)))"
proof (induction nodes arbitrary: d s)
  case Nil
  then show ?case by simp
next
  case (Cons node nodes)
  obtain r s1 where run: "dfs_store g ra ca node node [node] 0 s = (r, s1)"
    by (cases "dfs_store g ra ca node node [node] 0 s")
  then have stored: "detectCycles_loop_store g ra ca (node # nodes) s
      = (case r of Some e \<Rightarrow> (Some e, s1) | None \<Rightarrow> detectCycles_loop_store g ra ca nodes s1)"
    by (simp del: dfs_store.simps)
  have pure: "detectCycles_loop g (node # nodes) d
      = (case dfs g node node [node] 0 d of
           Inl e \<Rightarrow> Inl e
         | Inr d1 \<Rightarrow> detectCycles_loop g nodes d1)"
    by (simp del: dfs.simps)
  show ?case
  proof (cases "dfs g node node [node] 0 d")
    case (Inl e)
    with dfs_store_refines_from [OF Cons.prems, of g node node "[node]" 0] run
    have "r = Some e" by (simp del: dfs.simps dfs_store.simps)
    with stored have stored':
      "detectCycles_loop_store g ra ca (node # nodes) s = (Some e, s1)" by simp
    from pure Inl have pure': "detectCycles_loop g (node # nodes) d = Inl e"
      by (simp del: dfs.simps)
    show ?thesis unfolding pure' stored' by simp
  next
    case (Inr d1)
    with dfs_store_refines_from [OF Cons.prems, of g node node "[node]" 0] run
    have "r = None" and h1: "holds ra ca d1 s1"
      by (simp_all del: dfs.simps dfs_store.simps)
    with stored have stored':
      "detectCycles_loop_store g ra ca (node # nodes) s
       = detectCycles_loop_store g ra ca nodes s1" by simp
    from pure Inr have pure': "detectCycles_loop g (node # nodes) d
       = detectCycles_loop g nodes d1"
      by (simp del: dfs.simps)
    from Cons.IH [OF h1] show ?thesis unfolding pure' stored' .
  qed
qed

lemma detectCycles_store_refines: "fst (detectCycles_store g s) = detectCycles g"
proof -
  let ?ra = "length (arrays s)" and ?ca = "length (counters s)"
  let ?s0 = "\<lparr>arrays = arrays s @ [[]], counters = counters s @ [1]\<rparr>"
  let ?d0 = "\<lparr>rings = [], ringCount = 1\<rparr>"
  obtain r s' where run: "detectCycles_loop_store g ?ra ?ca (own_keys g) ?s0 = (r, s')"
    by (cases "detectCycles_loop_store g ?ra ?ca (own_keys g) ?s0")
  then have stored: "detectCycles_store g s
      = (case r of Some e \<Rightarrow> (Inl e, s') | None \<Rightarrow> (Inr (arrays s' ! ?ra), s'))"
    by (simp add: detectCycles_store_def Let_def)
  have start: "holds ?ra ?ca ?d0 ?s0" by (simp add: holds_def)
  show ?thesis
  proof (cases "detectCycles_loop g (own_keys g) ?d0")
    case (Inl e)
    with detectCycles_loop_store_refines [OF start, of g "own_keys g"] run
    have "r = Some e" by simp
    with Inl show ?thesis unfolding stored by (simp add: detectCycles_def)
  next
    case (Inr d')
    with detectCycles_loop_store_refines [OF start, of g "own_keys g"] run
    have "r = None" and "holds ?ra ?ca d' s'" by simp_all
    with Inr show ?thesis unfolding stored by (simp add: detectCycles_def holds_def)
  qed
qed

lemma engine_store_refines: "fst (engine_store transactions s) = engine transactions"
proof (cases "buildGraph transactions")
  case (Inl e)
  then show ?thesis by (simp add: engine_store_def engine_def)
next
  case (Inr b)
  obtain r s' where run: "detectCycles_store (graph b) s = (r, s')"
    by (cases "detectCycles_store (graph b) s")
  with detectCycles_store_refines [of "graph b" s] have "detectCycles (graph b) = r" by simp
  with Inr run show ?thesis
    by (cases r) (simp_all add: engine_store_def engine_def Let_def)
qed

lemma analyze_store_refines:
  "fst (analyze_store startTime now transactions s) = analyze startTime now transactions"
proof -
  obtain r s' where run: "engine_store transactions s = (r, s')"
    by (cases "engine_store transactions s")
  with engine_store_refines [of transactions s] have "engine transactions = r" by simp
  with run show ?thesis
    by (cases r) (simp_all add: analyze_store_def analyze_def)
qed

lemma analyze_time_only:
  "analyze startTime' now' transactions
     = (case analyze startTime now transactions of
          Ok rep \<Rightarrow>
            Ok (rep\<lparr>summary := (summary rep)
                  \<lparr>processing_time_seconds := real_of_int (now' - startTime') / 1000\<rparr>\<rparr>)
        | Status400 m \<Rightarrow> Status400 m
        | Status500 m \<Rightarrow> Status500 m)"
  by (cases "engine transactions") (simp_all add: analyze_def)

text \<open>With a counter of the module instead, the second run on the cycle \<open>A, B, C\<close>
  numbers its rings from \<open>RING_004\<close>.\<close>

lemma module_counter_differs:
  "fst (detectCycles_module_counter [(''A'', [''B'']), (''B'', [''C'']), (''C'', [''A''])]
          \<lparr>arrays = [], counters = [1]\<rparr>)
   = Inr [\<lparr>ring.ring_id = ''RING_001'', member_accounts = [''A'', ''B'', ''C''],
           pattern_type = ''cycle'', risk_score = 93\<rparr>,
          \<lparr>ring.ring_id = ''RING_002'', member_accounts = [''B'', ''C'', ''A''],
           pattern_type = ''cycle'', risk_score = 93\<rparr>,
          \<lparr>ring.ring_id = ''RING_003'', member_accounts = [''C'', ''A'', ''B''],
           pattern_type = ''cycle'', risk_score = 93\<rparr>]
   \<and> fst (detectCycles_module_counter [(''A'', [''B'']), (''B'', [''C'']), (''C'', [''A''])]
          (snd (detectCycles_module_counter
                  [(''A'', [''B'']), (''B'', [''C'']), (''C'', [''A''])]
                  \<lparr>arrays = [], counters = [1]\<rparr>)))
   = Inr [\<lparr>ring.ring_id = ''RING_004'', member_accounts = [''A'', ''B'', ''C''],
           pattern_type = ''cycle'', risk_score = 93\<rparr>,
          \<lparr>ring.ring_id = ''RING_005'', member_accounts = [''B'', ''C'', ''A''],
           pattern_type = ''cycle'', risk_score = 93\<rparr>,
          \<lparr>ring.ring_id = ''RING_006'', member_accounts = [''C'', ''A'', ''B''],
           pattern_type = ''cycle'', risk_score = 93\<rparr>]"
  by code_simp

text \<open>
  Claim C9. The analysis is deterministic across the runs of a process.
  \<open>engine_store\<close> and \<open>analyze_store\<close> are the detection section and the handler with the
  two closure variables of \<open>detectCycles\<close>, \<open>rings\<close> and \<open>ringCount\<close>, kept in the store
  of the process, which outlives the request. For every transaction list and every store,
  a second run that starts in the store the first run left finds the same suspicious
  accounts and the same rings with the same ring ids, or fails with the same error, and
  the handler answers as it did the first time, but for \<open>processing_time_seconds\<close>, its
  own reading of the clock. The reason is the one the claim gives: each call of
  \<open>detectCycles\<close> creates its own \<open>rings\<close> and \<open>ringCount\<close> and reads nothing that an
  earlier call wrote.
\<close>

theorem repeated_analysis_same_output:
  "fst (engine_store transactions (snd (engine_store transactions s)))
     = fst (engine_store transactions s)
   \<and> fst (analyze_store startTime' now' transactions
            (snd (analyze_store startTime now transactions s)))
     = (case fst (analyze_store startTime now transactions s) of
          Ok rep \<Rightarrow>
            Ok (rep\<lparr>summary := (summary rep)
                  \<lparr>processing_time_seconds := real_of_int (now' - startTime') / 1000\<rparr>\<rparr>)
        | Status400 m \<Rightarrow> Status400 m
        | Status500 m \<Rightarrow> Status500 m)"
  unfolding engine_store_refines analyze_store_refines
  using analyze_time_only [of startTime' now' transactions startTime now] by simp

theorem repeated_analysis_same_output_witness:
  "fst (engine_store
     [\<lparr>sender_id = ''A'', receiver_id = ''B''\<rparr>, \<lparr>sender_id = ''B'', receiver_id = ''C''\<rparr>,
      \<lparr>sender_id = ''C'', receiver_id = ''A''\<rparr>]
     (snd (engine_store
       [\<lparr>sender_id = ''A'', receiver_id = ''B''\<rparr>, \<lparr>sender_id = ''B'', receiver_id = ''C''\<rparr>,
        \<lparr>sender_id = ''C'', receiver_id = ''A''\<rparr>]
       \<lparr>arrays = [], counters = []\<rparr>)))
   = Inr \<lparr>found_accounts =
            [\<lparr>account_id = ''A'', suspicion_score = 50,
              detected_patterns = [''cycle_network''], ring_id = ''RING_001''\<rparr>,
             \<lparr>account_id = ''B'', suspicion_score = 50,
              detected_patterns = [''cycle_network''], ring_id = ''RING_001''\<rparr>,
             \<lparr>account_id = ''C'', suspicion_score = 50,
              detected_patterns = [''cycle_network''], ring_id = ''RING_001''\<rparr>],
          found_rings =
            [\<lparr>ring.ring_id = ''RING_001'', member_accounts = [''A'', ''B'', ''C''],
              pattern_type = ''cycle'', risk_score = 93\<rparr>,
             \<lparr>ring.ring_id = ''RING_002'', member_accounts = [''B'', ''C'', ''A''],
              pattern_type = ''cycle'', risk_score = 93\<rparr>,
             \<lparr>ring.ring_id = ''RING_003'', member_accounts = [''C'', ''A'', ''B''],
              pattern_type = ''cycle'', risk_score = 93\<rparr>],
          account_set = [''A'', ''B'', ''C'']\<rparr>"
proof -
  have "engine
     [\<lparr>sender_id = ''A'', receiver_id = ''B''\<rparr>, \<lparr>sender_id = ''B'', receiver_id = ''C''\<rparr>,
      \<lparr>sender_id = ''C'', receiver_id = ''A''\<rparr>]
   = Inr \<lparr>found_accounts =
            [\<lparr>account_id = ''A'', suspicion_score = 50,
              detected_patterns = [''cycle_network''], ring_id = ''RING_001''\<rparr>,
             \<lparr>account_id = ''B'', suspicion_score = 50,
              detected_patterns = [''cycle_network''], ring_id = ''RING_001''\<rparr>,
             \<lparr>account_id = ''C'', suspicion_score = 50,
              detected_patterns = [''cycle_network''], ring_id = ''RING_001''\<rparr>],
          found_rings =
            [\<lparr>ring.ring_id = ''RING_001'', member_accounts = [''A'', ''B'', ''C''],
              pattern_type = ''cycle'', risk_score = 93\<rparr>,
             \<lparr>ring.ring_id = ''RING_002'', member_accounts = [''B'', ''C'', ''A''],
              pattern_type = ''cycle'', risk_score = 93\<rparr>,
             \<lparr>ring.ring_id = ''RING_003'', member_accounts = [''C'', ''A'', ''B''],
              pattern_type = ''cycle'', risk_score = 93\<rparr>],
          account_set = [''A'', ''B'', ''C'']\<rparr>"
    by (simp add: eval_defs)
  then have first: "fst (engine_store
     [\<lparr>sender_id = ''A'', receiver_id = ''B''\<rparr>, \<lparr>sender_id = ''B'', receiver_id = ''C''\<rparr>,
      \<lparr>sender_id = ''C'', receiver_id = ''A''\<rparr>]
     \<lparr>arrays = [], counters = []\<rparr>)
   = Inr \<lparr>found_accounts =
            [\<lparr>account_id = ''A'', suspicion_score = 50,
              detected_patterns = [''cycle_network''], ring_id = ''RING_001''\<rparr>,
             \<lparr>account_id = ''B'', suspicion_score = 50,
              detected_patterns = [''cycle_network''], ring_id = ''RING_001''\<rparr>,
             \<lparr>account_id = ''C'', suspicion_score = 50,
              detected_patterns = [''cycle_network''], ring_id = ''RING_001''\<rparr>],
          found_rings =
            [\<lparr>ring.ring_id = ''RING_001'', member_accounts = [''A'', ''B'', ''C''],
              pattern_type = ''cycle'', risk_score = 93\<rparr>,
             \<lparr>ring.ring_id = ''RING_002'', member_accounts = [''B'', ''C'', ''A''],
              pattern_type = ''cycle'', risk_score = 93\<rparr>,
             \<lparr>ring.ring_id = ''RING_003'', member_accounts = [''C'', ''A'', ''B''],
              pattern_type = ''cycle'', risk_score = 93\<rparr>],
          account_set = [''A'', ''B'', ''C'']\<rparr>"
    by (simp only: engine_store_refines)
  from repeated_analysis_same_output
         [of "[\<lparr>sender_id = ''A'', receiver_id = ''B''\<rparr>, \<lparr>sender_id = ''B'', receiver_id = ''C''\<rparr>,
              \<lparr>sender_id = ''C'', receiver_id = ''A''\<rparr>]"
             "\<lparr>arrays = [], counters = []\<rparr>"]
  have "fst (engine_store
     [\<lparr>sender_id = ''A'', receiver_id = ''B''\<rparr>, \<lparr>sender_id = ''B'', receiver_id = ''C''\<rparr>,
      \<lparr>sender_id = ''C'', receiver_id = ''A''\<rparr>]
     (snd (engine_store
       [\<lparr>sender_id = ''A'', receiver_id = ''B''\<rparr>, \<lparr>sender_id = ''B'', receiver_id = ''C''\<rparr>,
        \<lparr>sender_id = ''C'', receiver_id = ''A''\<rparr>]
       \<lparr>arrays = [], counters = []\<rparr>)))
   = fst (engine_store
     [\<lparr>sender_id = ''A'', receiver_id = ''B''\<rparr>, \<lparr>sender_id = ''B'', receiver_id = ''C''\<rparr>,
      \<lparr>sender_id = ''C'', receiver_id = ''A''\<rparr>]
     \<lparr>arrays = [], counters = []\<rparr>)"
    by (rule conjunct1)
  with first show ?thesis by (simp only:)
qed

end
